theory Spec2Isabelle
  imports Main "HOL-Library.Word"
begin

unbundle bit_operations_syntax

section \<open>The PS/2 receiver of keyboard.asm\<close>

text \<open>
  The receiver lives in the 8051's internal RAM and a few timer and interrupt
  registers. Every byte is an \<open>8 word\<close>; the sixteen slots of
  \<open>m_abKeyBuffer\<close> are a list of length \<open>KEYBUFLEN\<close>. The accumulator, PSW, R0 and
  DPTR are scratch: the interrupt routine pushes and pops them, so they are not
  part of the state. The data pin \<open>KEYBOARD_DATA\<close> is an input of the outside
  world and is passed to the interrupt routine as the sampled bit.
\<close>

type_synonym byte = "8 word"

record kbd =
  g_bKeyFlags :: byte
  m_bKeyState :: byte
  m_bKeyData :: byte
  m_bKeyGet :: byte
  m_bKeyPut :: byte
  m_abKeyBuffer :: "byte list"
  TMOD :: byte
  TH0 :: byte
  TL0 :: byte
  TF0 :: bool
  TR0 :: bool
  ET0 :: bool
  IT0 :: bool
  EX0 :: bool

definition KEYBUFLEN :: byte where
  "KEYBUFLEN = 16"

text \<open>The bits of \<open>g_bKeyFlags\<close> (bit addresses 0, 4, 5, 6, 7 of byte 0x20).\<close>

definition m_fKeyBusy :: byte where
  "m_fKeyBusy = 0x01"

definition m_fKeyOverflow :: byte where
  "m_fKeyOverflow = 0x10"

definition m_fKeyParity :: byte where
  "m_fKeyParity = 0x20"

definition m_fKeyFraming :: byte where
  "m_fKeyFraming = 0x40"

definition m_fKeyTimeout :: byte where
  "m_fKeyTimeout = 0x80"

definition KEYBOARD_ERROR_BITS :: byte where
  "KEYBOARD_ERROR_BITS = 0xF0"

definition SETB :: "byte \<Rightarrow> byte \<Rightarrow> byte" where
  "SETB b flags = flags OR b"

definition CLR :: "byte \<Rightarrow> byte \<Rightarrow> byte" where
  "CLR b flags = flags AND NOT b"

text \<open>
  \<open>TIMEOUT_COUNT\<close> is -1842 as a sixteen bit value, 0xF8CE; \<open>T1_MASK\<close> and
  \<open>T0_M0\<close> are the masks of \<open>TMOD\<close>. \<open>InitializeKeyboard\<close> also sets the port
  latches of the clock and data pins to release the two lines; the latches are
  not part of the state.
\<close>

definition InitializeKeyboard :: "kbd \<Rightarrow> kbd" where
  "InitializeKeyboard s =
     s\<lparr>m_bKeyGet := 0, m_bKeyPut := 0, m_bKeyState := 0, g_bKeyFlags := 0,
       TMOD := (TMOD s AND 0xF0) OR 0x01, TR0 := False, ET0 := True,
       IT0 := True, EX0 := True\<rparr>"

text \<open>
  \<open>GetKey\<close> returns DPH:DPL, sixteen bits: 0xFFFF (the int -1) when the two
  cursors are equal, otherwise the get cursor is incremented, masked, stored,
  and the byte it then points at is returned with zero fill. The keyboard
  interrupt is off during the call and on again at its end.
\<close>

definition GetKey :: "kbd \<Rightarrow> 16 word \<times> kbd" where
  "GetKey s =
     (if m_bKeyGet s = m_bKeyPut s then (0xFFFF, s\<lparr>EX0 := True\<rparr>)
      else let a = (m_bKeyGet s + 1) AND (KEYBUFLEN - 1)
           in (ucast (m_abKeyBuffer s ! unat a), s\<lparr>m_bKeyGet := a, EX0 := True\<rparr>))"

text \<open>
  \<open>PutKey\<close>: the incremented and masked put cursor is compared (\<open>CJNE\<close>) with
  \<open>m_bKeyPut\<close>; when they differ the cursor is stored and \<open>m_bKeyData\<close> is written
  to the slot (label \<open>SAVEIT\<close>), otherwise the overflow bit is set (label
  \<open>NOROOM\<close>).
\<close>

definition PutKey :: "kbd \<Rightarrow> kbd" where
  "PutKey s =
     (let a = (m_bKeyPut s + 1) AND (KEYBUFLEN - 1)
      in if a \<noteq> m_bKeyPut s
         then s\<lparr>m_bKeyPut := a, m_abKeyBuffer := (m_abKeyBuffer s)[unat a := m_bKeyData s]\<rparr>
         else s\<lparr>g_bKeyFlags := SETB m_fKeyOverflow (g_bKeyFlags s)\<rparr>)"

subsection \<open>The interrupt routine KEYBOARD_BIT\<close>

text \<open>
  The parity flag PSW.0 after \<open>MOV A, m_bKeyData\<close>: set when the accumulator
  holds an odd number of one bits.
\<close>

definition ones :: "byte \<Rightarrow> nat" where
  "ones a = length (filter (bit a) [0..<8])"

definition PSW_P :: "byte \<Rightarrow> bool" where
  "PSW_P a = odd (ones a)"

text \<open>\<open>RRC A\<close>: the carry enters at bit 7, the other bits move one place down.\<close>

definition RRC :: "bool \<Rightarrow> byte \<Rightarrow> byte" where
  "RRC c a = (if c then 0x80 else 0) OR drop_bit 1 a"

definition KEYRET :: "kbd \<Rightarrow> kbd" where
  "KEYRET s = s"

definition KEYNXT :: "kbd \<Rightarrow> kbd" where
  "KEYNXT s = KEYRET (s\<lparr>m_bKeyState := m_bKeyState s + 1\<rparr>)"

definition FRAERR :: "kbd \<Rightarrow> kbd" where
  "FRAERR s = KEYRET (s\<lparr>g_bKeyFlags := SETB m_fKeyFraming (g_bKeyFlags s), m_bKeyState := 11\<rparr>)"

definition BADPAR :: "kbd \<Rightarrow> kbd" where
  "BADPAR s = KEYRET (s\<lparr>g_bKeyFlags := SETB m_fKeyParity (g_bKeyFlags s), m_bKeyState := 11\<rparr>)"

definition START :: "bool \<Rightarrow> kbd \<Rightarrow> kbd" where
  "START d s =
     (if d then FRAERR s
      else KEYNXT (s\<lparr>g_bKeyFlags := SETB m_fKeyBusy (g_bKeyFlags s), m_bKeyData := 0,
                     TH0 := 0xF8, TL0 := 0xCE, TF0 := False, TR0 := True\<rparr>))"

definition SDATA :: "bool \<Rightarrow> kbd \<Rightarrow> kbd" where
  "SDATA d s = KEYNXT (s\<lparr>m_bKeyData := RRC d (m_bKeyData s)\<rparr>)"

definition SPARITY :: "bool \<Rightarrow> kbd \<Rightarrow> kbd" where
  "SPARITY d s =
     (if PSW_P (m_bKeyData s)
      then (if \<not> d then KEYNXT s else BADPAR s)
      else (if \<not> d then BADPAR s else KEYNXT s))"

definition STOPB :: "bool \<Rightarrow> kbd \<Rightarrow> kbd" where
  "STOPB d s =
     (let s1 = s\<lparr>g_bKeyFlags := CLR m_fKeyBusy (g_bKeyFlags s), TR0 := False\<rparr>
      in if \<not> d then FRAERR s1
         else KEYRET ((PutKey s1)\<lparr>m_bKeyState := 0\<rparr>))"

text \<open>
  The dispatch \<open>JMP @A+DPTR\<close> through the twelve entries of \<open>KEYTAB\<close>. A state
  byte above 11 would jump past the table, into code the table does not name:
  the result is \<open>None\<close>.
\<close>

definition KEYBOARD_BIT :: "bool \<Rightarrow> kbd \<Rightarrow> kbd option" where
  "KEYBOARD_BIT d s =
     (let st = unat (m_bKeyState s)
      in if st = 0 then Some (START d s)
         else if st \<le> 8 then Some (SDATA d s)
         else if st = 9 then Some (SPARITY d s)
         else if st = 10 then Some (STOPB d s)
         else if st = 11 then Some (KEYRET s)
         else None)"

definition KEYBOARD_TIMEOUT :: "kbd \<Rightarrow> kbd" where
  "KEYBOARD_TIMEOUT s =
     s\<lparr>g_bKeyFlags := CLR m_fKeyBusy (SETB m_fKeyTimeout (g_bKeyFlags s)), m_bKeyState := 0\<rparr>"

text \<open>A run of falling clock edges, each with the data bit sampled at it.\<close>

fun edges :: "bool list \<Rightarrow> kbd \<Rightarrow> kbd option" where
  "edges [] s = Some s"
| "edges (d # ds) s = (case KEYBOARD_BIT d s of None \<Rightarrow> None | Some s' \<Rightarrow> edges ds s')"

text \<open>
  A well-formed PS/2 frame for a byte: start bit 0, the eight data bits from
  bit 0 upwards, the odd parity bit (one exactly when the byte has an even
  number of one bits), stop bit 1.
\<close>

definition parity_bit :: "byte \<Rightarrow> bool" where
  "parity_bit b = even (ones b)"

definition frame :: "byte \<Rightarrow> bool list" where
  "frame b = False # map (bit b) [0..<8] @ [parity_bit b, True]"

text \<open>\<open>n\<close> successive calls of \<open>GetKey\<close>, with the values they return.\<close>

fun GetKeys :: "nat \<Rightarrow> kbd \<Rightarrow> 16 word list \<times> kbd" where
  "GetKeys 0 s = ([], s)"
| "GetKeys (Suc n) s =
     (case GetKey s of (k, s') \<Rightarrow> (case GetKeys n s' of (ks, s'') \<Rightarrow> (k # ks, s'')))"

text \<open>
  A machine state before \<open>main\<close> runs, with every register and RAM cell zero.
  \<open>InitializeKeyboard\<close> overwrites all of it that the receiver reads, apart from
  the buffer slots and \<open>m_bKeyData\<close>, which are written before they are read.
\<close>

definition power_on :: kbd where
  "power_on =
     \<lparr>g_bKeyFlags = 0, m_bKeyState = 0, m_bKeyData = 0, m_bKeyGet = 0, m_bKeyPut = 0,
      m_abKeyBuffer = replicate 16 0, TMOD = 0, TH0 = 0, TL0 = 0, TF0 = False,
      TR0 = False, ET0 = False, IT0 = False, EX0 = False\<rparr>"

text \<open>
  The receiver after the start bit and the eight data bits of the byte 0x1C
  (the key A), waiting for the parity bit.
\<close>

definition at_parity :: kbd where
  "at_parity =
     (InitializeKeyboard power_on)\<lparr>g_bKeyFlags := 1, m_bKeyData := 0x1C, TH0 := 0xF8,
        TL0 := 0xCE, TF0 := False, TR0 := True, m_bKeyState := 9\<rparr>"

text \<open>
  The interrupts the background loop can be interrupted by: a falling clock
  edge with its data bit, or the overflow of timer 0.
\<close>

datatype irq = Edge bool | Timer0

fun service :: "irq list \<Rightarrow> kbd \<Rightarrow> kbd option" where
  "service [] s = Some s"
| "service (Edge d # qs) s = (case KEYBOARD_BIT d s of None \<Rightarrow> None | Some s' \<Rightarrow> service qs s')"
| "service (Timer0 # qs) s = service qs (KEYBOARD_TIMEOUT s)"

subsection \<open>Reading aids for the buffer\<close>

text \<open>
  The cursors of a running receiver stay below \<open>KEYBUFLEN\<close> and the buffer has
  its sixteen slots. The unread bytes are the slots after the get cursor up to
  the put cursor, oldest first.
\<close>

definition kbd_ok :: "kbd \<Rightarrow> bool" where
  "kbd_ok s = (unat (m_bKeyGet s) < 16 \<and> unat (m_bKeyPut s) < 16 \<and> length (m_abKeyBuffer s) = 16)"

definition pending :: "kbd \<Rightarrow> byte list" where
  "pending s = map (\<lambda>i. m_abKeyBuffer s ! ((unat (m_bKeyGet s) + 1 + i) mod 16))
     [0 ..< (unat (m_bKeyPut s) + 16 - unat (m_bKeyGet s)) mod 16]"

text \<open>A flag bit is set in a flags byte.\<close>

definition is_set :: "byte \<Rightarrow> byte \<Rightarrow> bool" where
  "is_set b flags = (flags AND b = b)"

text \<open>Every error bit that is set before is set after.\<close>

definition keeps_errors :: "kbd \<Rightarrow> kbd \<Rightarrow> bool" where
  "keeps_errors s s' =
     (g_bKeyFlags s AND KEYBOARD_ERROR_BITS AND g_bKeyFlags s' = g_bKeyFlags s AND KEYBOARD_ERROR_BITS)"

text \<open>Nothing was added to or taken from the buffer.\<close>

definition same_buffer :: "kbd \<Rightarrow> kbd \<Rightarrow> bool" where
  "same_buffer s s' =
     (m_abKeyBuffer s' = m_abKeyBuffer s \<and> m_bKeyPut s' = m_bKeyPut s \<and> m_bKeyGet s' = m_bKeyGet s)"

subsection \<open>The receiver and its reader together\<close>

text \<open>
  What happens to the receiver, in the order in which it happens: a falling
  clock edge with its data bit, taken by \<open>KEYBOARD_BIT\<close>, or a call of \<open>GetKey\<close>
  by the background loop. \<open>run\<close> collects what the calls return.
\<close>

datatype ev = Clock bool | Take

fun run :: "ev list \<Rightarrow> kbd \<Rightarrow> (16 word list \<times> kbd) option" where
  "run [] s = Some ([], s)"
| "run (Clock d # es) s = (case KEYBOARD_BIT d s of None \<Rightarrow> None | Some s' \<Rightarrow> run es s')"
| "run (Take # es) s =
     (case GetKey s of (k, s') \<Rightarrow>
        (case run es s' of None \<Rightarrow> None | Some (ks, s'') \<Rightarrow> Some (k # ks, s'')))"

text \<open>The data bits of the edges alone.\<close>

fun clocks :: "ev list \<Rightarrow> bool list" where
  "clocks [] = []"
| "clocks (Clock d # es) = d # clocks es"
| "clocks (Take # es) = clocks es"

text \<open>
  The reader keeps up: with \<open>n\<close> bytes unread and \<open>i\<close> edges of the current
  frame taken, every stop bit (the eleventh edge of its frame) finds fewer
  than fifteen bytes unread.
\<close>

fun room :: "nat \<Rightarrow> nat \<Rightarrow> ev list \<Rightarrow> bool" where
  "room n i [] = True"
| "room n i (Take # es) = room (n - 1) i es"
| "room n i (Clock d # es) = (if i = 10 then n < 15 \<and> room (Suc n) 0 es else room n (Suc i) es)"

text \<open>
  The receiver has taken \<open>i\<close> edges of the frame for the first byte of \<open>bs\<close>:
  the state byte counts them, and the data bits still to come complete the
  accumulator to that byte.
\<close>

definition at_edge :: "nat \<Rightarrow> byte list \<Rightarrow> kbd \<Rightarrow> bool" where
  "at_edge i bs s =
     (unat (m_bKeyState s) = i \<and> i \<le> 10 \<and>
      (1 \<le> i \<longrightarrow> bs \<noteq> [] \<and> fold RRC (map (bit (hd bs)) [i - 1 ..< 8]) (m_bKeyData s) = hd bs))"

text \<open>
  An example: the key A is pressed and released (frames 0x1C, 0xF0, 0x1C),
  and the background loop calls \<open>GetKey\<close> before the first edge, in the middle
  of the first frame, and twice after the second frame.
\<close>

definition typing :: "ev list" where
  "typing =
     Take # map Clock (take 4 (frame 0x1C)) @ Take # map Clock (drop 4 (frame 0x1C)) @
     map Clock (frame 0xF0) @ Take # Take # map Clock (frame 0x1C)"

section \<open>The consumer of host.c\<close>

subsection \<open>WaitKey\<close>

text \<open>
  One pass of the loop of \<open>WaitKey\<close>: a key from \<open>GetKey\<close> is returned as its low
  byte; on -1 the error bits are tested and, when one is set, the keyboard is
  initialized again. \<open>None\<close> is the pass that returns nothing and loops.
\<close>

definition LOBYTE :: "16 word \<Rightarrow> byte" where
  "LOBYTE x = ucast (x AND 0xFF)"

definition WaitKey_pass :: "kbd \<Rightarrow> byte option \<times> kbd" where
  "WaitKey_pass s =
     (case GetKey s of (nKey, s1) \<Rightarrow>
        if nKey \<noteq> 0xFFFF then (Some (LOBYTE nKey), s1)
        else if g_bKeyFlags s1 AND KEYBOARD_ERROR_BITS \<noteq> 0 then (None, InitializeKeyboard s1)
        else (None, s1))"

text \<open>
  The loop itself, with the interrupts that are serviced between one pass and
  the next. When they run out with the buffer still empty the loop polls for
  ever: \<open>None\<close>.
\<close>

fun WaitKey :: "irq list list \<Rightarrow> kbd \<Rightarrow> (byte \<times> kbd \<times> irq list list) option" where
  "WaitKey sched s =
     (case WaitKey_pass s of
        (Some k, s') \<Rightarrow> Some (k, s', sched)
      | (None, s') \<Rightarrow>
          (case sched of
             [] \<Rightarrow> None
           | q # rest \<Rightarrow> (case service q s' of None \<Rightarrow> None | Some s'' \<Rightarrow> WaitKey rest s'')))"

subsection \<open>The decoder state and the host port\<close>

text \<open>
  The four bits of \<open>m_bShiftFlags\<close>, and the bytes handed to the host so far,
  oldest first. \<open>SendHost\<close> puts one byte on the port and waits for the host to
  take it; the model records the byte.
\<close>

record host =
  m_fLeftShiftDown :: bool
  m_fRightShiftDown :: bool
  m_fControlDown :: bool
  m_fCapsLockOn :: bool
  sent :: "byte list"

definition SendHost :: "byte \<Rightarrow> host \<Rightarrow> host" where
  "SendHost ch h = h\<lparr>sent := sent h @ [ch]\<rparr>"

text \<open>The output codes of scancode.h.\<close>

definition KEY_BREAK :: byte where
  "KEY_BREAK = 0x80"

definition KEY_F1 :: byte where
  "KEY_F1 = 0x81"

definition KEY_F2 :: byte where
  "KEY_F2 = 0x82"

definition KEY_F3 :: byte where
  "KEY_F3 = 0x83"

definition KEY_F4 :: byte where
  "KEY_F4 = 0x84"

definition KEY_F5 :: byte where
  "KEY_F5 = 0x85"

definition KEY_F6 :: byte where
  "KEY_F6 = 0x86"

definition KEY_F7 :: byte where
  "KEY_F7 = 0x87"

definition KEY_F8 :: byte where
  "KEY_F8 = 0x88"

definition KEY_F9 :: byte where
  "KEY_F9 = 0x89"

definition KEY_F10 :: byte where
  "KEY_F10 = 0x8A"

definition KEY_F11 :: byte where
  "KEY_F11 = 0x8B"

definition KEY_F12 :: byte where
  "KEY_F12 = 0x8C"

definition KEY_SCRLCK :: byte where
  "KEY_SCRLCK = 0x8D"

definition KEY_NUMLOCK :: byte where
  "KEY_NUMLOCK = 0x8E"

definition KEY_UP :: byte where
  "KEY_UP = 0x90"

definition KEY_DOWN :: byte where
  "KEY_DOWN = 0x91"

definition KEY_RIGHT :: byte where
  "KEY_RIGHT = 0x92"

definition KEY_LEFT :: byte where
  "KEY_LEFT = 0x93"

definition KEY_MENU :: byte where
  "KEY_MENU = 0x95"

definition KEY_END :: byte where
  "KEY_END = 0x96"

definition KEY_HOME :: byte where
  "KEY_HOME = 0x97"

definition KEY_INSERT :: byte where
  "KEY_INSERT = 0x98"

definition KEY_PGDN :: byte where
  "KEY_PGDN = 0x99"

definition KEY_PGUP :: byte where
  "KEY_PGUP = 0x9A"

definition KEY_DELETE :: byte where
  "KEY_DELETE = 0x9B"

definition KEY_KP0 :: byte where
  "KEY_KP0 = 0xA0"

definition KEY_KP1 :: byte where
  "KEY_KP1 = 0xA1"

definition KEY_KP2 :: byte where
  "KEY_KP2 = 0xA2"

definition KEY_KP3 :: byte where
  "KEY_KP3 = 0xA3"

definition KEY_KP4 :: byte where
  "KEY_KP4 = 0xA4"

definition KEY_KP5 :: byte where
  "KEY_KP5 = 0xA5"

definition KEY_KP6 :: byte where
  "KEY_KP6 = 0xA6"

definition KEY_KP7 :: byte where
  "KEY_KP7 = 0xA7"

definition KEY_KP8 :: byte where
  "KEY_KP8 = 0xA8"

definition KEY_KP9 :: byte where
  "KEY_KP9 = 0xA9"

definition KEY_KPDOT :: byte where
  "KEY_KPDOT = 0xAA"

definition KEY_KPPLUS :: byte where
  "KEY_KPPLUS = 0xAB"

definition KEY_KPSLASH :: byte where
  "KEY_KPSLASH = 0xAC"

definition KEY_KPSTAR :: byte where
  "KEY_KPSTAR = 0xAD"

definition KEY_KPMINUS :: byte where
  "KEY_KPMINUS = 0xAE"

definition KEY_KPENTER :: byte where
  "KEY_KPENTER = 0xAF"

text \<open>
  The table \<open>g_abScanCodes[128][4]\<close> is declared in scancode.h; its contents
  (scancode_us.c) are not among the sources, so the table is a parameter: row,
  then column.
\<close>

type_synonym scancodes = "nat \<Rightarrow> nat \<Rightarrow> byte"

text \<open>
  What stops the decoder: \<open>WaitKey\<close> never returns because no further key
  arrives, or \<open>DoASCII\<close> indexes the table past its 128 rows.
\<close>

datatype stop = NoKey | TableOverrun

subsection \<open>The key handlers\<close>

definition DoSpecial :: "byte \<Rightarrow> bool" where
  "DoSpecial bKey =
     (bKey = 0xFA \<or> bKey = 0xAA \<or> bKey = 0xEE \<or> bKey = 0xFE \<or> bKey = 0x00 \<or> bKey = 0xFF)"

text \<open>
  \<open>DoShift\<close>; \<open>swap\<close> is the value of \<open>SWAP_CAPSLOCK_AND_CONTROL\<close>, the jumper on
  P3.0 (or the build option of the debug version).
\<close>

definition DoShift :: "bool \<Rightarrow> byte \<Rightarrow> bool \<Rightarrow> bool \<Rightarrow> host \<Rightarrow> bool \<times> host" where
  "DoShift swap bKey0 fRelease fExtended h =
     (let bKey = (if swap then (if bKey0 = 0x58 then 0x14 else if bKey0 = 0x14 then 0x58 else bKey0)
                  else bKey0)
      in if bKey = 0x12 then (True, h\<lparr>m_fLeftShiftDown := \<not> fRelease\<rparr>)
         else if bKey = 0x59 then (True, h\<lparr>m_fRightShiftDown := \<not> fRelease\<rparr>)
         else if bKey = 0x14 then
           (if fExtended then (False, h) else (True, h\<lparr>m_fControlDown := \<not> fRelease\<rparr>))
         else if bKey = 0x58 then
           (if fRelease then (False, h) else (True, h\<lparr>m_fCapsLockOn := \<not> m_fCapsLockOn h\<rparr>))
         else if bKey = 0x11 then (True, h)
         else if bKey = 0x1F \<or> bKey = 0x27 then (False, h)
         else (False, h))"

definition DoKeypad :: "byte \<Rightarrow> bool \<Rightarrow> host \<Rightarrow> bool \<times> host" where
  "DoKeypad bKey fRelease h =
     (if bKey = 0x70 then (True, if \<not> fRelease then SendHost KEY_KP0 h else h)
      else if bKey = 0x69 then (True, if \<not> fRelease then SendHost KEY_KP1 h else h)
      else if bKey = 0x72 then (True, if \<not> fRelease then SendHost KEY_KP2 h else h)
      else if bKey = 0x7A then (True, if \<not> fRelease then SendHost KEY_KP3 h else h)
      else if bKey = 0x6B then (True, if \<not> fRelease then SendHost KEY_KP4 h else h)
      else if bKey = 0x73 then (True, if \<not> fRelease then SendHost KEY_KP5 h else h)
      else if bKey = 0x74 then (True, if \<not> fRelease then SendHost KEY_KP6 h else h)
      else if bKey = 0x6C then (True, if \<not> fRelease then SendHost KEY_KP7 h else h)
      else if bKey = 0x75 then (True, if \<not> fRelease then SendHost KEY_KP8 h else h)
      else if bKey = 0x7D then (True, if \<not> fRelease then SendHost KEY_KP9 h else h)
      else if bKey = 0x71 then (True, if \<not> fRelease then SendHost KEY_KPDOT h else h)
      else if bKey = 0x7C then (True, if \<not> fRelease then SendHost KEY_KPSTAR h else h)
      else if bKey = 0x7B then (True, if \<not> fRelease then SendHost KEY_KPMINUS h else h)
      else if bKey = 0x79 then (True, if \<not> fRelease then SendHost KEY_KPPLUS h else h)
      else if bKey = 0x77 then (True, h)
      else (False, h))"

definition DoFunction :: "byte \<Rightarrow> bool \<Rightarrow> host \<Rightarrow> bool \<times> host" where
  "DoFunction bKey fRelease h =
     (if bKey = 0x05 then (True, if \<not> fRelease then SendHost KEY_F1 h else h)
      else if bKey = 0x06 then (True, if \<not> fRelease then SendHost KEY_F2 h else h)
      else if bKey = 0x04 then (True, if \<not> fRelease then SendHost KEY_F3 h else h)
      else if bKey = 0x0C then (True, if \<not> fRelease then SendHost KEY_F4 h else h)
      else if bKey = 0x03 then (True, if \<not> fRelease then SendHost KEY_F5 h else h)
      else if bKey = 0x0B then (True, if \<not> fRelease then SendHost KEY_F6 h else h)
      else if bKey = 0x83 then (True, if \<not> fRelease then SendHost KEY_F7 h else h)
      else if bKey = 0x0A then (True, if \<not> fRelease then SendHost KEY_F8 h else h)
      else if bKey = 0x01 then (True, if \<not> fRelease then SendHost KEY_F9 h else h)
      else if bKey = 0x09 then (True, if \<not> fRelease then SendHost KEY_F10 h else h)
      else if bKey = 0x78 then (True, if \<not> fRelease then SendHost KEY_F11 h else h)
      else if bKey = 0x07 then (True, if \<not> fRelease then SendHost KEY_F12 h else h)
      else (False, h))"

text \<open>The simplified \<open>islower\<close> and \<open>toupper\<close> of host.c.\<close>

definition islower :: "byte \<Rightarrow> bool" where
  "islower c = (0x61 \<le> c \<and> c \<le> 0x7A)"

definition toupper :: "byte \<Rightarrow> byte" where
  "toupper c = c AND 0xDF"

definition bShift_of :: "host \<Rightarrow> byte" where
  "bShift_of h =
     (let bShift = (if m_fLeftShiftDown h \<or> m_fRightShiftDown h then 1 else 0)
      in if m_fControlDown h then bShift OR 2 else bShift)"

text \<open>
  \<open>DoASCII\<close>. The row index is the key code, a byte; the table has 128 rows,
  and a read past them is reported as \<open>TableOverrun\<close>.
\<close>

definition DoASCII :: "scancodes \<Rightarrow> byte \<Rightarrow> bool \<Rightarrow> host \<Rightarrow> stop + bool \<times> host" where
  "DoASCII g_abScanCodes bKey fRelease h =
     (if \<not> unat bKey < 128 then Inl TableOverrun
      else let bASCII = g_abScanCodes (unat bKey) (unat (bShift_of h))
           in if bASCII = 0 then Inr (False, h)
              else if fRelease then Inr (True, h)
              else let c = bASCII AND 0x7F;
                       c' = (if m_fCapsLockOn h \<and> islower c then toupper c else c)
                   in Inr (True, SendHost c' h))"

subsection \<open>The decoder loop\<close>

text \<open>
  The decoder reads its keys through \<open>WaitKey\<close>. Here \<open>keys\<close> is the sequence of
  bytes the successive calls return; when it is used up the next call never
  returns. A key that may be a release prefix 0xF0 is followed by the key
  proper.
\<close>

definition WaitKey_from :: "byte list \<Rightarrow> stop + byte \<times> byte list" where
  "WaitKey_from keys = (case keys of [] \<Rightarrow> Inl NoKey | k # ks \<Rightarrow> Inr (k, ks))"

definition after_release :: "byte \<Rightarrow> byte list \<Rightarrow> stop + bool \<times> byte \<times> byte list" where
  "after_release b keys =
     (if b = 0xF0
      then (case WaitKey_from keys of Inl e \<Rightarrow> Inl e | Inr (b', ks) \<Rightarrow> Inr (True, b', ks))
      else Inr (False, b, keys))"

definition DoExtended :: "bool \<Rightarrow> byte list \<Rightarrow> host \<Rightarrow> stop + byte list \<times> host" where
  "DoExtended swap keys h =
     (case WaitKey_from keys of
        Inl e \<Rightarrow> Inl e
      | Inr (b, ks) \<Rightarrow>
          (case after_release b ks of
             Inl e \<Rightarrow> Inl e
           | Inr (fRelease, bExtended, ks') \<Rightarrow>
               Inr (ks',
                 if bExtended = 0x75 then (if \<not> fRelease then SendHost KEY_UP h else h)
                 else if bExtended = 0x72 then (if \<not> fRelease then SendHost KEY_DOWN h else h)
                 else if bExtended = 0x74 then (if \<not> fRelease then SendHost KEY_RIGHT h else h)
                 else if bExtended = 0x6B then (if \<not> fRelease then SendHost KEY_LEFT h else h)
                 else if bExtended = 0x69 then (if \<not> fRelease then SendHost KEY_END h else h)
                 else if bExtended = 0x6C then (if \<not> fRelease then SendHost KEY_HOME h else h)
                 else if bExtended = 0x70 then (if \<not> fRelease then SendHost KEY_INSERT h else h)
                 else if bExtended = 0x71 then (if \<not> fRelease then SendHost KEY_DELETE h else h)
                 else if bExtended = 0x7A then (if \<not> fRelease then SendHost KEY_PGDN h else h)
                 else if bExtended = 0x7D then (if \<not> fRelease then SendHost KEY_PGUP h else h)
                 else if bExtended = 0x5A then (if \<not> fRelease then SendHost KEY_KPENTER h else h)
                 else if bExtended = 0x4A then (if \<not> fRelease then SendHost KEY_KPSLASH h else h)
                 else if bExtended = 0x11 \<or> bExtended = 0x14 then snd (DoShift swap bExtended fRelease True h)
                 else if bExtended = 0x2F then (if \<not> fRelease then SendHost KEY_MENU h else h)
                 else if bExtended = 0x1F \<or> bExtended = 0x27 then snd (DoShift swap bExtended fRelease True h)
                 else if bExtended = 0x12 \<or> bExtended = 0x7C then h
                 else h)))"

text \<open>
  The seven comparisons after 0xE1, in the order of the source. A byte that
  differs ends the iteration; after the last one \<open>KEY_BREAK\<close> is sent.
\<close>

definition pause_tail :: "byte list" where
  "pause_tail = [0x14, 0x77, 0xE1, 0xF0, 0x14, 0xF0, 0x77]"

fun DoPause :: "byte list \<Rightarrow> byte list \<Rightarrow> host \<Rightarrow> stop + byte list \<times> host" where
  "DoPause [] keys h = Inr (keys, SendHost KEY_BREAK h)"
| "DoPause (e # es) keys h =
     (case WaitKey_from keys of
        Inl err \<Rightarrow> Inl err
      | Inr (k, ks) \<Rightarrow> if k \<noteq> e then Inr (ks, h) else DoPause es ks h)"

text \<open>
  One iteration of the loop of \<open>ConvertKeys\<close>: the keys left and the new state,
  or what stopped it.
\<close>

definition ConvertKeys_body ::
  "bool \<Rightarrow> scancodes \<Rightarrow> byte list \<Rightarrow> host \<Rightarrow> stop + byte list \<times> host" where
  "ConvertKeys_body swap g_abScanCodes keys h =
     (case WaitKey_from keys of
        Inl e \<Rightarrow> Inl e
      | Inr (bKey0, ks0) \<Rightarrow>
          if DoSpecial bKey0 then Inr (ks0, h)
          else if bKey0 = 0xE0 then DoExtended swap ks0 h
          else if bKey0 = 0xE1 then DoPause pause_tail ks0 h
          else
            (case after_release bKey0 ks0 of
               Inl e \<Rightarrow> Inl e
             | Inr (fRelease, bKey, ks) \<Rightarrow>
                 if bKey = 0x77 then Inr (ks, if \<not> fRelease then SendHost KEY_NUMLOCK h else h)
                 else if bKey = 0x7E then Inr (ks, if \<not> fRelease then SendHost KEY_SCRLCK h else h)
                 else
                   (case DoShift swap bKey fRelease False h of
                      (True, h1) \<Rightarrow> Inr (ks, h1)
                    | (False, h1) \<Rightarrow>
                        (case DoFunction bKey fRelease h1 of
                           (True, h2) \<Rightarrow> Inr (ks, h2)
                         | (False, h2) \<Rightarrow>
                             (case DoKeypad bKey fRelease h2 of
                                (True, h3) \<Rightarrow> Inr (ks, h3)
                              | (False, h3) \<Rightarrow>
                                  (case DoASCII g_abScanCodes bKey fRelease h3 of
                                     Inl e \<Rightarrow> Inl e
                                   | Inr (handled, h4) \<Rightarrow> Inr (ks, h4)))))))"

text \<open>
  Every iteration that goes on to a next one has taken at least one key, so
  the loop over a given sequence of keys comes to a stop.
\<close>

lemma WaitKey_from_shorter: "WaitKey_from keys = Inr (k, ks) \<Longrightarrow> length ks < length keys"
  by (cases keys) (simp_all add: WaitKey_from_def)

lemma after_release_shorter: "after_release b keys = Inr (r, k, ks) \<Longrightarrow> length ks \<le> length keys"
  by (auto simp add: after_release_def split: if_splits sum.splits dest: WaitKey_from_shorter)

lemma DoExtended_shorter: "DoExtended swap keys h = Inr (ks, h') \<Longrightarrow> length ks < length keys"
  by (auto simp add: DoExtended_def split: sum.splits prod.splits
      dest!: WaitKey_from_shorter after_release_shorter)

lemma DoPause_shorter: "DoPause es keys h = Inr (ks, h') \<Longrightarrow> length ks \<le> length keys"
proof (induction es arbitrary: keys)
  case Nil
  then show ?case by simp
next
  case (Cons e es)
  then show ?case
    by (fastforce split: sum.splits prod.splits if_splits dest: WaitKey_from_shorter)
qed

lemma ConvertKeys_body_shorter:
  "ConvertKeys_body swap tab keys h = Inr (ks, h') \<Longrightarrow> length ks < length keys"
  unfolding ConvertKeys_body_def
  by (auto split: sum.splits prod.splits if_splits bool.splits
      dest!: WaitKey_from_shorter after_release_shorter DoExtended_shorter DoPause_shorter)

text \<open>
  The loop of \<open>ConvertKeys\<close>, run until it stops: why it stopped, and the state
  it stopped in.
\<close>

function ConvertKeys_loop :: "bool \<Rightarrow> scancodes \<Rightarrow> byte list \<Rightarrow> host \<Rightarrow> stop \<times> host" where
  "ConvertKeys_loop swap tab keys h =
     (case ConvertKeys_body swap tab keys h of
        Inl e \<Rightarrow> (e, h)
      | Inr (ks, h') \<Rightarrow> ConvertKeys_loop swap tab ks h')"
  by pat_completeness auto
termination
  by (relation "measure (\<lambda>(swap, tab, keys, h). length keys)")
     (auto dest: ConvertKeys_body_shorter)

text \<open>\<open>ConvertKeys\<close> clears \<open>m_bShiftFlags\<close> and enters the loop.\<close>

definition ConvertKeys :: "bool \<Rightarrow> scancodes \<Rightarrow> byte list \<Rightarrow> host \<Rightarrow> stop \<times> host" where
  "ConvertKeys swap tab keys h =
     ConvertKeys_loop swap tab keys
       (h\<lparr>m_fLeftShiftDown := False, m_fRightShiftDown := False,
          m_fControlDown := False, m_fCapsLockOn := False\<rparr>)"

text \<open>The decoder state right after \<open>m_bShiftFlags = 0\<close>, nothing sent yet.\<close>

definition host0 :: host where
  "host0 = \<lparr>m_fLeftShiftDown = False, m_fRightShiftDown = False, m_fControlDown = False,
            m_fCapsLockOn = False, sent = []\<rparr>"

text \<open>
  A table for examples: the row of the key A (0x1C) holds \<open>a\<close>, \<open>A\<close> and 0x81
  for the shift states 0, 1 and 2, and nothing for shift with control; every
  other row is empty.
\<close>

definition tab_a :: scancodes where
  "tab_a r c =
     (if r = 0x1C then (if c = 0 then 0x61 else if c = 1 then 0x41 else if c = 2 then 0x81 else 0)
      else 0)"

section \<open>Properties of the receiver\<close>

subsection \<open>Cursor arithmetic\<close>

lemma unat_and_15: "unat (x AND (15::byte)) = unat x mod 16"
proof -
  have "(15::byte) = mask 4" by (simp add: mask_eq_exp_minus_1)
  then have "x AND 15 = take_bit 4 x" by (simp add: take_bit_eq_mask)
  then show ?thesis by (simp add: unsigned_take_bit_eq take_bit_eq_mod unat_mod)
qed

lemma unat_next: "unat ((x + 1) AND (KEYBUFLEN - 1)) = (unat x + 1) mod 16"
proof -
  have "unat (x + 1) = (unat x + 1) mod 256" by (simp add: unat_word_ariths)
  then show ?thesis by (simp add: KEYBUFLEN_def unat_and_15 mod_mod_cancel)
qed

text \<open>
  The incremented and masked cursor never equals the cursor it came from: the
  two differ in bit 0.
\<close>

lemma next_differs: "(a + 1) AND (KEYBUFLEN - 1) \<noteq> a"
proof
  assume h: "(a + 1) AND (KEYBUFLEN - 1) = a"
  have "even ((a + 1) AND 15) = even a" using h by (simp add: KEYBUFLEN_def)
  then show False by (simp add: even_and_iff)
qed

text \<open>So \<open>PutKey\<close> always takes the branch \<open>SAVEIT\<close>.\<close>

lemma PutKey_stores:
  "PutKey s = s\<lparr>m_bKeyPut := (m_bKeyPut s + 1) AND (KEYBUFLEN - 1),
     m_abKeyBuffer := (m_abKeyBuffer s)[unat ((m_bKeyPut s + 1) AND (KEYBUFLEN - 1)) := m_bKeyData s]\<rparr>"
  by (simp add: PutKey_def Let_def next_differs)

lemma mod16_small: "x < 32 \<Longrightarrow> x mod 16 = (if x < 16 then x else x - (16::nat))"
  by (simp add: le_mod_geq)

subsection \<open>Shifting a byte in\<close>

lemma bit_byte: "bit (w::byte) n \<Longrightarrow> n < 8"
  using bit_imp_le_length [of w n] by simp

lemma bit_0x80: "bit (0x80::byte) n = (n = 7)"
proof -
  have "(0x80::byte) = 2 ^ 7" by simp
  then show ?thesis by (simp only: bit_exp_iff) (auto simp: possible_bit_word)
qed

lemma bit_RRC: "bit (RRC c a) n = (if n = 7 then c else n < 7 \<and> bit a (Suc n))"
proof -
  have top: "bit a (Suc n) \<Longrightarrow> n < 7"
    using bit_imp_le_length [of a "Suc n"] by simp
  have "bit (RRC c a) n = ((c \<and> n = 7) \<or> bit a (Suc n))"
    by (cases c) (simp_all only: RRC_def if_True if_False bit_or_iff bit_drop_bit_eq bit_0x80
        bit_0_eq possible_bit_word, simp_all)
  then show ?thesis using top by auto
qed

text \<open>Eight shifts, bit 0 first, rebuild the byte whatever the accumulator held.\<close>

lemma RRC_byte:
  "RRC (bit b 7) (RRC (bit b 6) (RRC (bit b 5) (RRC (bit b 4) (RRC (bit b 3) (RRC (bit b 2)
     (RRC (bit b (Suc 0)) (RRC (bit b 0) a))))))) = (b::byte)"
proof (rule bit_word_eqI)
  fix n
  assume "n < LENGTH(8)"
  then have "n \<in> {0, 1, 2, 3, 4, 5, 6, 7}" by auto
  then show "bit (RRC (bit b 7) (RRC (bit b 6) (RRC (bit b 5) (RRC (bit b 4) (RRC (bit b 3)
     (RRC (bit b 2) (RRC (bit b (Suc 0)) (RRC (bit b 0) a)))))))) n = bit b n"
    by (auto simp add: bit_RRC)
qed

lemma upt8: "[0..<8] = [0, 1, 2, 3, 4, 5, 6, 7::nat]"
  by (simp add: upt_rec)

lemma parity_ok: "m_bKeyData s = b \<Longrightarrow> SPARITY (parity_bit b) s = KEYNXT s"
  by (simp add: SPARITY_def parity_bit_def PSW_P_def)

subsection \<open>Putting a byte in\<close>

lemma pending_same: "same_buffer s s' \<Longrightarrow> pending s' = pending s"
  by (simp add: same_buffer_def pending_def)

lemma kbd_ok_same: "same_buffer s s' \<Longrightarrow> kbd_ok s' = kbd_ok s"
  by (simp add: same_buffer_def kbd_ok_def)

text \<open>With fewer than fifteen bytes unread, the new byte joins them at the end.\<close>

lemma PutKey_pending:
  assumes "kbd_ok s" "length (pending s) < 15"
  shows "pending (PutKey s) = pending s @ [m_bKeyData s]" "kbd_ok (PutKey s)"
proof -
  define g where "g = unat (m_bKeyGet s)"
  define p where "p = unat (m_bKeyPut s)"
  define n where "n = (p + 16 - g) mod 16"
  have b: "g < 16" "p < 16" "length (m_abKeyBuffer s) = 16" "n < 15"
    using assms by (simp_all add: kbd_ok_def pending_def g_def p_def n_def)
  have fields: "m_bKeyGet (PutKey s) = m_bKeyGet s"
    "unat (m_bKeyPut (PutKey s)) = (unat (m_bKeyPut s) + 1) mod 16"
    "m_abKeyBuffer (PutKey s) = (m_abKeyBuffer s)[(unat (m_bKeyPut s) + 1) mod 16 := m_bKeyData s]"
    by (simp_all add: PutKey_stores unat_next)
  have n_alt: "n = (if g \<le> p then p - g else p + 16 - g)"
    using b by (simp add: n_def mod16_small)
  have n': "(Suc p mod 16 + 16 - g) mod 16 = Suc n"
    using b by (auto simp add: n_alt mod16_small split: if_splits)
  have old: "Suc p mod 16 \<noteq> Suc (g + i) mod 16" if "i < n" for i
    using that b by (auto simp add: n_alt mod16_small split: if_splits)
  have new: "(g + 1 + n) mod 16 = (p + 1) mod 16"
    using b by (auto simp add: n_alt mod16_small split: if_splits)
  show "pending (PutKey s) = pending s @ [m_bKeyData s]"
    using b old new
    by (simp add: pending_def fields n' flip: g_def p_def n_def)
  show "kbd_ok (PutKey s)"
    using assms(1) by (simp add: kbd_ok_def fields)
qed

subsection \<open>Taking bytes out\<close>

lemma GetKey_empty:
  assumes "kbd_ok s" "pending s = []"
  shows "fst (GetKey s) = 0xFFFF" "pending (snd (GetKey s)) = []" "kbd_ok (snd (GetKey s))"
proof -
  have "length (pending s) = (unat (m_bKeyPut s) + 16 - unat (m_bKeyGet s)) mod 16"
    by (simp add: pending_def)
  then have "(unat (m_bKeyPut s) + 16 - unat (m_bKeyGet s)) mod 16 = 0"
    using assms(2) by simp
  moreover have "unat (m_bKeyGet s) < 16" "unat (m_bKeyPut s) < 16"
    using assms(1) by (simp_all add: kbd_ok_def)
  ultimately have "unat (m_bKeyGet s) = unat (m_bKeyPut s)"
    by (simp add: mod16_small split: if_splits)
  then have "m_bKeyGet s = m_bKeyPut s" by (simp add: word_unat_eq_iff)
  then show "fst (GetKey s) = 0xFFFF" "pending (snd (GetKey s)) = []" "kbd_ok (snd (GetKey s))"
    using assms by (simp_all add: GetKey_def pending_def kbd_ok_def)
qed

lemma GetKey_pending:
  assumes "kbd_ok s" "pending s = b # bs"
  shows "fst (GetKey s) = ucast b" "pending (snd (GetKey s)) = bs" "kbd_ok (snd (GetKey s))"
proof -
  define g where "g = unat (m_bKeyGet s)"
  define p where "p = unat (m_bKeyPut s)"
  define n where "n = (p + 16 - g) mod 16"
  have b: "g < 16" "p < 16" "length (m_abKeyBuffer s) = 16"
    using assms by (simp_all add: kbd_ok_def g_def p_def)
  have n_alt: "n = (if g \<le> p then p - g else p + 16 - g)"
    using b by (simp add: n_def mod16_small)
  have "length (pending s) = n" by (simp add: pending_def n_def g_def p_def)
  then have "n \<noteq> 0" using assms(2) by auto
  then have ne: "m_bKeyGet s \<noteq> m_bKeyPut s"
    by (auto simp add: n_def g_def p_def)
  have get': "GetKey s = (ucast (m_abKeyBuffer s ! (Suc g mod 16)),
      s\<lparr>m_bKeyGet := (m_bKeyGet s + 1) AND (KEYBUFLEN - 1), EX0 := True\<rparr>)"
    using ne by (simp add: GetKey_def Let_def unat_next g_def)
  have n': "(p + 16 - Suc g mod 16) mod 16 = n - 1"
    using b \<open>n \<noteq> 0\<close> by (auto simp add: n_alt mod16_small split: if_splits)
  have idx: "Suc (Suc g mod 16 + i) mod 16 = Suc (g + Suc i) mod 16" for i
    using mod_add_left_eq [of "Suc g" 16 "Suc i"] by simp
  have pend: "pending s = map (\<lambda>i. m_abKeyBuffer s ! (Suc (g + i) mod 16)) [0..<n]"
    by (simp add: pending_def g_def p_def n_def)
  have "[0..<n] = 0 # map Suc [0..<n - 1]"
    using \<open>n \<noteq> 0\<close> by (cases n) (simp_all add: upt_conv_Cons map_Suc_upt del: upt_Suc)
  then have split: "pending s = m_abKeyBuffer s ! (Suc g mod 16) #
       map (\<lambda>i. m_abKeyBuffer s ! (Suc (g + Suc i) mod 16)) [0..<n - 1]"
    by (simp add: pend comp_def)
  show "fst (GetKey s) = ucast b" using assms(2) split by (simp add: get')
  show "pending (snd (GetKey s)) = bs"
    using assms(2) split by (simp add: get' pending_def unat_next n' idx flip: g_def p_def)
  show "kbd_ok (snd (GetKey s))" using b by (simp add: get' kbd_ok_def unat_next p_def)
qed

lemma GetKeys_Suc: "fst (GetKeys (Suc n) s) = fst (GetKey s) # fst (GetKeys n (snd (GetKey s)))"
  by (simp split: prod.splits)

text \<open>
  One call more than there are unread bytes returns them in order, zero
  filled, and then -1.
\<close>

lemma GetKeys_pending:
  "kbd_ok s \<Longrightarrow> pending s = bs \<Longrightarrow> fst (GetKeys (Suc (length bs)) s) = map ucast bs @ [0xFFFF]"
proof (induction bs arbitrary: s)
  case Nil
  then have "fst (GetKey s) = 0xFFFF" by (simp add: GetKey_empty)
  moreover have "fst (GetKeys (Suc 0) s) = fst (GetKey s) # fst (GetKeys 0 (snd (GetKey s)))"
    by (rule GetKeys_Suc)
  ultimately show ?case by simp
next
  case (Cons b bs)
  have "fst (GetKeys (Suc (length bs)) (snd (GetKey s))) = map ucast bs @ [0xFFFF]"
    using Cons.prems by (intro Cons.IH) (simp_all add: GetKey_pending)
  moreover have "fst (GetKey s) = ucast b"
    using Cons.prems by (simp add: GetKey_pending)
  moreover have "fst (GetKeys (Suc (Suc (length bs))) s) =
      fst (GetKey s) # fst (GetKeys (Suc (length bs)) (snd (GetKey s)))"
    by (rule GetKeys_Suc)
  ultimately show ?case by (simp del: GetKeys.simps)
qed

lemma pending_InitializeKeyboard: "pending (InitializeKeyboard s) = []"
  by (simp add: pending_def InitializeKeyboard_def)

lemma ucast_not_sentinel: "(ucast (b::byte) :: 16 word) \<noteq> 0xFFFF"
proof
  assume eq: "(ucast b :: 16 word) = 0xFFFF"
  have "(0xFFFF :: 16 word) = - 1" by simp
  then have "bit (ucast b :: 16 word) 8" by (simp only: eq bit_minus_1_iff) simp
  then have "bit b 8" by (simp add: bit_ucast_iff)
  then show False using bit_byte [of b 8] by simp
qed

lemma ucast_filter: "filter (\<lambda>k. k \<noteq> 0xFFFF) (map ucast (bs :: byte list)) = (map ucast bs :: 16 word list)"
  by (induction bs) (simp_all add: ucast_not_sentinel)

lemma GetKey_at_edge: "at_edge i bs s \<Longrightarrow> at_edge i bs (snd (GetKey s))"
  by (simp add: at_edge_def GetKey_def Let_def)

lemma GetKey_queue:
  assumes "kbd_ok s"
  shows "kbd_ok (snd (GetKey s))"
    "filter (\<lambda>k. k \<noteq> 0xFFFF) [fst (GetKey s)] @ map ucast (pending (snd (GetKey s))) =
       map ucast (pending s)"
    "length (pending (snd (GetKey s))) = length (pending s) - 1"
proof -
  have ne: "(ucast (b::byte) :: 16 word) \<noteq> 0xFFFF" for b
    by (rule ucast_not_sentinel)
  show "kbd_ok (snd (GetKey s))"
    "filter (\<lambda>k. k \<noteq> 0xFFFF) [fst (GetKey s)] @ map ucast (pending (snd (GetKey s))) =
       map ucast (pending s)"
    "length (pending (snd (GetKey s))) = length (pending s) - 1"
    using assms GetKey_empty [of s] GetKey_pending [of s] ne
    by (cases "pending s"; simp)+
qed

subsection \<open>The edges of a frame\<close>

lemma frame_length: "length (frame b) = 11"
  by (simp add: frame_def)

lemma frame_nth:
  "frame b ! 0 = False"
  "1 \<le> i \<Longrightarrow> i \<le> 8 \<Longrightarrow> frame b ! i = bit b (i - 1)"
  "frame b ! 9 = parity_bit b"
  "frame b ! 10 = True"
  by (auto simp add: frame_def nth_Cons' nth_append)

lemma unat_state: "unat (st::byte) = i \<Longrightarrow> i \<le> 10 \<Longrightarrow> unat (st + 1) = Suc i"
  by (simp add: unat_word_ariths)

text \<open>An edge of the frame before the stop bit.\<close>

lemma clock_mid:
  assumes "at_edge i (b # bs) s" "i < 10"
  shows "\<exists>s'. KEYBOARD_BIT (frame b ! i) s = Some s' \<and> at_edge (Suc i) (b # bs) s' \<and> same_buffer s s'"
proof -
  have st: "unat (m_bKeyState s) = i" using assms(1) by (simp add: at_edge_def)
  consider "i = 0" | "1 \<le> i" "i \<le> 8" | "i = 9" using assms(2) by linarith
  then show ?thesis
  proof cases
    case 1
    have "fold RRC (map (bit b) [0..<8]) 0 = b"
      using RRC_byte [of b 0] by (simp add: upt8)
    then show ?thesis
      using st 1
      by (simp add: KEYBOARD_BIT_def frame_nth START_def KEYNXT_def KEYRET_def at_edge_def
          same_buffer_def unat_state)
  next
    case 2
    have d: "fold RRC (map (bit b) [i - 1 ..< 8]) (m_bKeyData s) = b"
      using assms(1) 2 by (simp add: at_edge_def)
    have "[i - 1 ..< 8] = (i - 1) # [i ..< 8]"
      using 2 by (simp add: upt_conv_Cons)
    then have "fold RRC (map (bit b) [i ..< 8]) (RRC (bit b (i - 1)) (m_bKeyData s)) = b"
      using d by simp
    then show ?thesis
      using st 2
      by (simp add: KEYBOARD_BIT_def frame_nth SDATA_def KEYNXT_def KEYRET_def at_edge_def
          same_buffer_def unat_state)
  next
    case 3
    have d: "m_bKeyData s = b" using assms(1) 3 by (simp add: at_edge_def)
    then show ?thesis
      using st 3
      by (simp add: KEYBOARD_BIT_def frame_nth parity_ok KEYNXT_def KEYRET_def at_edge_def
          same_buffer_def unat_state)
  qed
qed

text \<open>The stop bit.\<close>

lemma clock_stop:
  assumes "at_edge 10 (b # bs) s" "kbd_ok s" "length (pending s) < 15"
  shows "\<exists>s'. KEYBOARD_BIT (frame b ! 10) s = Some s' \<and> at_edge 0 bs s' \<and> kbd_ok s' \<and>
           pending s' = pending s @ [b]"
proof -
  have st: "unat (m_bKeyState s) = 10" and d: "m_bKeyData s = b"
    using assms(1) by (simp_all add: at_edge_def)
  let ?s1 = "s\<lparr>g_bKeyFlags := CLR m_fKeyBusy (g_bKeyFlags s), TR0 := False\<rparr>"
  have sb: "same_buffer s ?s1" by (simp add: same_buffer_def)
  have step: "KEYBOARD_BIT (frame b ! 10) s = Some ((PutKey ?s1)\<lparr>m_bKeyState := 0\<rparr>)"
    using st by (simp add: KEYBOARD_BIT_def frame_nth STOPB_def KEYRET_def)
  have p: "pending (PutKey ?s1) = pending ?s1 @ [m_bKeyData ?s1]" "kbd_ok (PutKey ?s1)"
    using assms(2,3) pending_same [OF sb] kbd_ok_same [OF sb] by (simp_all add: PutKey_pending)
  have sb2: "same_buffer (PutKey ?s1) ((PutKey ?s1)\<lparr>m_bKeyState := 0\<rparr>)"
    by (simp add: same_buffer_def)
  show ?thesis
    using step p d pending_same [OF sb] pending_same [OF sb2] kbd_ok_same [OF sb2]
    by (simp add: at_edge_def)
qed

text \<open>
  The receiver and the reader together behave as a queue, as long as there is
  room: what the calls of \<open>GetKey\<close> return, without the -1, and then the bytes
  still unread are the bytes unread before and then the bytes of the frames.
\<close>

lemma run_frames:
  assumes "kbd_ok s" "at_edge i bs s" "clocks evs = drop i (concat (map frame bs))"
    "room (length (pending s)) i evs"
  shows "\<exists>ks s'. run evs s = Some (ks, s') \<and> kbd_ok s' \<and>
           filter (\<lambda>k. k \<noteq> 0xFFFF) ks @ map ucast (pending s') = map ucast (pending s @ bs)"
  using assms
proof (induction evs arbitrary: s i bs)
  case Nil
  have "bs = []"
  proof (rule ccontr)
    assume "bs \<noteq> []"
    then obtain b bs' where "bs = b # bs'" by (cases bs) auto
    then have "length (concat (map frame bs)) \<ge> 11" by (simp add: frame_length)
    moreover have "i \<le> 10" using Nil.prems(2) by (simp add: at_edge_def)
    ultimately show False using Nil.prems(3) by simp
  qed
  then show ?case using Nil.prems(1) by simp
next
  case (Cons e evs)
  show ?case
  proof (cases e)
    case Take
    let ?s1 = "snd (GetKey s)"
    have q: "kbd_ok ?s1"
      "filter (\<lambda>k. k \<noteq> 0xFFFF) [fst (GetKey s)] @ map ucast (pending ?s1) = map ucast (pending s)"
      "length (pending ?s1) = length (pending s) - 1"
      using GetKey_queue [OF Cons.prems(1)] by simp_all
    have "\<exists>ks s'. run evs ?s1 = Some (ks, s') \<and> kbd_ok s' \<and>
        filter (\<lambda>k. k \<noteq> 0xFFFF) ks @ map ucast (pending s') = map ucast (pending ?s1 @ bs)"
      using Cons.prems Take q by (intro Cons.IH [of ?s1 i bs]) (simp_all add: GetKey_at_edge)
    then obtain ks s' where r: "run evs ?s1 = Some (ks, s')" "kbd_ok s'"
      "filter (\<lambda>k. k \<noteq> 0xFFFF) ks @ map ucast (pending s') = map ucast (pending ?s1 @ bs)"
      by blast
    have "run (e # evs) s = Some (fst (GetKey s) # ks, s')"
      using r(1) Take by (cases "GetKey s") simp
    moreover have "filter (\<lambda>k. k \<noteq> 0xFFFF) (fst (GetKey s) # ks) @ map ucast (pending s') =
        map ucast (pending s @ bs)"
    proof -
      have "filter (\<lambda>k. k \<noteq> 0xFFFF) (fst (GetKey s) # ks) @ map ucast (pending s') =
          filter (\<lambda>k. k \<noteq> 0xFFFF) [fst (GetKey s)] @
            (filter (\<lambda>k. k \<noteq> 0xFFFF) ks @ map ucast (pending s'))"
        by simp
      also have "\<dots> = filter (\<lambda>k. k \<noteq> 0xFFFF) [fst (GetKey s)] @ map ucast (pending ?s1 @ bs)"
        by (simp only: r(3))
      also have "\<dots> = map ucast (pending s @ bs)"
        using q(2) by simp
      finally show ?thesis .
    qed
    ultimately show ?thesis using r(2) by blast
  next
    case (Clock d)
    have i10: "i \<le> 10" using Cons.prems(2) by (simp add: at_edge_def)
    have "bs \<noteq> []" using Cons.prems(3) Clock by auto
    then obtain b bs' where bs: "bs = b # bs'" by (cases bs) auto
    have dr: "drop i (concat (map frame bs)) = frame b ! i # drop (Suc i) (concat (map frame bs))"
      using i10 by (simp add: bs frame_length nth_append flip: Cons_nth_drop_Suc)
    then have d: "d = frame b ! i" and rest: "clocks evs = drop (Suc i) (concat (map frame bs))"
      using Cons.prems(3) Clock by simp_all
    show ?thesis
    proof (cases "i = 10")
      case False
      then have lt: "i < 10" using i10 by simp
      obtain s1 where s1: "KEYBOARD_BIT (frame b ! i) s = Some s1" "at_edge (Suc i) (b # bs') s1"
          "same_buffer s s1"
        using clock_mid [OF Cons.prems(2) [unfolded bs] lt] by blast
      have "\<exists>ks s'. run evs s1 = Some (ks, s') \<and> kbd_ok s' \<and>
          filter (\<lambda>k. k \<noteq> 0xFFFF) ks @ map ucast (pending s') = map ucast (pending s1 @ bs)"
        using Cons.prems Clock False s1 rest pending_same [OF s1(3)] kbd_ok_same [OF s1(3)]
        by (intro Cons.IH [of s1 "Suc i" bs]) (simp_all add: bs)
      then show ?thesis
        using s1(1) d Clock pending_same [OF s1(3)] by simp
    next
      case True
      have room: "length (pending s) < 15" "room (Suc (length (pending s))) 0 evs"
        using Cons.prems(4) Clock True by simp_all
      obtain s1 where s1: "KEYBOARD_BIT (frame b ! 10) s = Some s1" "at_edge 0 bs' s1" "kbd_ok s1"
          "pending s1 = pending s @ [b]"
        using clock_stop [OF Cons.prems(2) [unfolded bs True] Cons.prems(1) room(1)] by blast
      have rest': "clocks evs = drop 0 (concat (map frame bs'))"
        using rest True by (simp add: bs frame_length)
      have "\<exists>ks s'. run evs s1 = Some (ks, s') \<and> kbd_ok s' \<and>
          filter (\<lambda>k. k \<noteq> 0xFFFF) ks @ map ucast (pending s') = map ucast (pending s1 @ bs')"
        using s1 room(2) rest' by (intro Cons.IH [of s1 0 bs']) simp_all
      then show ?thesis
        using s1(1,4) d Clock True by (simp add: bs)
    qed
  qed
qed

subsection \<open>The full buffer\<close>

text \<open>
  Claim C1. \<open>PutKey\<close> is documented to set the overflow bit and discard the byte
  when the buffer is full, leaving the stored bytes as they are. The code
  compares the incremented put cursor with the put cursor itself, not with the
  get cursor, so the branch \<open>NOROOM\<close> is never taken (\<open>PutKey_stores\<close>). Here the
  buffer is filled by fifteen frames after \<open>InitializeKeyboard\<close>: the fifteen
  bytes are unread, get is 0 and put is 15. \<open>PutKey\<close> of a sixteenth byte 0x42
  then does not set Overflow; it writes the byte to slot 0 and moves put to 0,
  onto the get cursor, after which no byte is unread and \<open>GetKey\<close> returns -1.
  In every state \<open>PutKey\<close> leaves the flags as they are and moves the put
  cursor.
\<close>

theorem PutKey_full_buffer_overwrites:
  "(case edges (concat (map frame [1, 2, 3, 4, 5, 6, 7, 8, 9, 10, 11, 12, 13, 14, 15]))
            (InitializeKeyboard power_on) of
       None \<Rightarrow> False
     | Some s \<Rightarrow>
         pending s = [1, 2, 3, 4, 5, 6, 7, 8, 9, 10, 11, 12, 13, 14, 15] \<and>
         m_bKeyGet s = 0 \<and> m_bKeyPut s = 15 \<and>
         (let s' = PutKey (s\<lparr>m_bKeyData := 0x42\<rparr>)
          in \<not> is_set m_fKeyOverflow (g_bKeyFlags s') \<and> m_bKeyPut s' = 0 \<and>
             m_abKeyBuffer s' ! 0 = 0x42 \<and> pending s' = [] \<and> fst (GetKey s') = 0xFFFF)) \<and>
   (\<forall>t. g_bKeyFlags (PutKey t) = g_bKeyFlags t \<and> m_bKeyPut (PutKey t) \<noteq> m_bKeyPut t)"
proof (rule conjI)
  show "case edges (concat (map frame [1, 2, 3, 4, 5, 6, 7, 8, 9, 10, 11, 12, 13, 14, 15]))
            (InitializeKeyboard power_on) of
       None \<Rightarrow> False
     | Some s \<Rightarrow>
         pending s = [1, 2, 3, 4, 5, 6, 7, 8, 9, 10, 11, 12, 13, 14, 15] \<and>
         m_bKeyGet s = 0 \<and> m_bKeyPut s = 15 \<and>
         (let s' = PutKey (s\<lparr>m_bKeyData := 0x42\<rparr>)
          in \<not> is_set m_fKeyOverflow (g_bKeyFlags s') \<and> m_bKeyPut s' = 0 \<and>
             m_abKeyBuffer s' ! 0 = 0x42 \<and> pending s' = [] \<and> fst (GetKey s') = 0xFFFF)"
    by code_simp
  show "\<forall>t. g_bKeyFlags (PutKey t) = g_bKeyFlags t \<and> m_bKeyPut (PutKey t) \<noteq> m_bKeyPut t"
    by (simp add: PutKey_stores next_differs)
qed

subsection \<open>Frames in, bytes out\<close>

text \<open>
  Claim C2, as amended. The receiver is idle, its cursors are in range and its
  buffer holds some unread bytes. The frames of a sequence of bytes, each well
  formed, are taken in edge by edge with no timeout in between, while \<open>GetKey\<close>
  is called at any points between the edges, and every stop bit finds fewer
  than fifteen bytes unread (the buffer of sixteen slots holds fifteen). Then
  every edge is accepted, and the calls of \<open>GetKey\<close>, continued after the last
  edge until -1 is returned, return apart from -1 exactly the bytes that were
  unread at the start and then the transmitted bytes, each once and in the
  order of transmission.
\<close>

theorem frames_then_GetKey:
  assumes "kbd_ok s" and "m_bKeyState s = 0" and "clocks evs = concat (map frame bs)"
    and "room (length (pending s)) 0 evs"
  shows "\<exists>ks s'. run evs s = Some (ks, s') \<and>
           filter (\<lambda>k. k \<noteq> 0xFFFF) (ks @ fst (GetKeys (Suc (length (pending s'))) s')) =
             map ucast (pending s @ bs)"
proof -
  have "at_edge 0 bs s" using assms(2) by (simp add: at_edge_def)
  then obtain ks s' where r: "run evs s = Some (ks, s')" "kbd_ok s'"
      "filter (\<lambda>k. k \<noteq> 0xFFFF) ks @ map ucast (pending s') = map ucast (pending s @ bs)"
    using run_frames [OF assms(1), of 0 bs evs] assms(3,4) by auto
  have "fst (GetKeys (Suc (length (pending s'))) s') = map ucast (pending s') @ [0xFFFF]"
    using r(2) by (simp add: GetKeys_pending del: GetKeys.simps)
  moreover have "filter (\<lambda>k. k \<noteq> 0xFFFF) (map ucast (pending s') @ [0xFFFF :: 16 word]) =
      map ucast (pending s')"
    using ucast_filter by simp
  ultimately show ?thesis using r(1,3) by (simp del: GetKeys.simps)
qed

text \<open>The three frames of the example are read as three bytes.\<close>

theorem frames_then_GetKey_witness:
  "\<exists>ks s'. run typing (InitializeKeyboard power_on) = Some (ks, s') \<and>
     filter (\<lambda>k. k \<noteq> 0xFFFF) (ks @ fst (GetKeys (Suc (length (pending s'))) s')) =
       [0x1C, 0xF0, 0x1C]"
proof -
  let ?s = "InitializeKeyboard power_on"
  have ok: "kbd_ok ?s" by (simp add: kbd_ok_def InitializeKeyboard_def power_on_def)
  have idle: "m_bKeyState ?s = 0" by (simp add: InitializeKeyboard_def)
  have frames: "clocks typing = concat (map frame [0x1C, 0xF0, 0x1C])" by code_simp
  have room: "room (length (pending ?s)) 0 typing"
    unfolding pending_InitializeKeyboard by code_simp
  show ?thesis
    using frames_then_GetKey [OF ok idle frames room]
    by (simp add: pending_InitializeKeyboard del: GetKeys.simps)
qed

text \<open>
  The claim as stated, for every sequence of frames, fails at sixteen frames
  with no call of \<open>GetKey\<close> in between: the buffer cannot hold them. After them
  \<open>GetKey\<close> returns -1 at once, and goes on doing so.
\<close>

theorem sixteen_frames_counterexample:
  "(case run (map Clock (concat (map frame [1, 2, 3, 4, 5, 6, 7, 8, 9, 10, 11, 12, 13, 14, 15, 16])))
            (InitializeKeyboard power_on) of
       None \<Rightarrow> False
     | Some (ks, s') \<Rightarrow>
         ks = [] \<and> fst (GetKey s') = 0xFFFF \<and> fst (GetKeys 17 s') = replicate 17 0xFFFF)"
  by code_simp

subsection \<open>Flag bits\<close>

lemma is_set_SETB: "is_set b (SETB b f)"
  unfolding is_set_def SETB_def by (rule bit_eqI) (auto simp: bit_simps)

lemma is_set_bits: "is_set b f \<longleftrightarrow> (\<forall>n. bit b n \<longrightarrow> bit f n)"
  unfolding is_set_def by (auto simp add: bit_eq_iff bit_and_iff dest: bit_byte)

lemma disjoint_bits: "b AND c = (0::byte) \<longleftrightarrow> (\<forall>n. \<not> (bit b n \<and> bit c n))"
  by (auto simp add: bit_eq_iff bit_and_iff dest: bit_byte)

lemma is_set_SETB_other: "is_set b f \<Longrightarrow> is_set b (SETB c f)"
  by (simp add: is_set_bits SETB_def bit_or_iff)

lemma is_set_CLR_other: "b AND c = 0 \<Longrightarrow> is_set b (CLR c f) = is_set b f"
  by (auto simp add: is_set_bits disjoint_bits CLR_def bit_and_iff bit_not_iff dest: bit_byte)

lemma not_is_set_CLR: "b \<noteq> 0 \<Longrightarrow> \<not> is_set b (CLR b f)"
  by (auto simp add: is_set_bits CLR_def bit_and_iff bit_not_iff bit_eq_iff)

lemma keeps_errors_bits:
  "keeps_errors s s' \<longleftrightarrow>
     (\<forall>n. bit (g_bKeyFlags s) n \<and> bit KEYBOARD_ERROR_BITS n \<longrightarrow> bit (g_bKeyFlags s') n)"
  unfolding keeps_errors_def by (auto simp add: bit_eq_iff bit_and_iff dest: bit_byte)

lemma keeps_errors_refl: "keeps_errors s s"
  by (simp add: keeps_errors_bits)

lemma keeps_errors_trans: "keeps_errors s s' \<Longrightarrow> keeps_errors s' s'' \<Longrightarrow> keeps_errors s s''"
  by (simp add: keeps_errors_bits)

lemma errors_not_busy: "KEYBOARD_ERROR_BITS AND m_fKeyBusy = 0"
  by (simp add: KEYBOARD_ERROR_BITS_def m_fKeyBusy_def)

subsection \<open>The parity bit\<close>

lemma same_buffer_refl: "same_buffer s s"
  by (simp add: same_buffer_def)

lemma same_buffer_trans: "same_buffer s s' \<Longrightarrow> same_buffer s' s'' \<Longrightarrow> same_buffer s s''"
  by (simp add: same_buffer_def)

lemma KEYBOARD_BIT_Error: "m_bKeyState s = 11 \<Longrightarrow> KEYBOARD_BIT d s = Some s"
  by (simp add: KEYBOARD_BIT_def KEYRET_def)

lemma edges_Error: "m_bKeyState s = 11 \<Longrightarrow> edges ds s = Some s"
  by (induction ds) (simp_all add: KEYBOARD_BIT_Error)

lemma parity_bit_total: "odd (ones b + (if parity_bit b then 1 else 0))"
  by (simp add: parity_bit_def)

lemma at_parity_reached: "edges (take 9 (frame 0x1C)) (InitializeKeyboard power_on) = Some at_parity"
  by code_simp

text \<open>
  Claim C3. The receiver is in the parity state, 9. When the sampled bit is
  the odd parity bit of the accumulated byte (one exactly when the byte has an
  even number of one bits) the receiver moves on to the stop bit state, 10,
  and nothing else changes. When it is not, the parity error bit is set, the
  receiver is in the error state 11, and the buffer and its cursors are as
  before; every later edge leaves that state as it is, so the parity error bit
  stays set and the accumulated byte is never stored.
\<close>

theorem parity_bit_checked:
  assumes "m_bKeyState s = 9"
  shows "(d = parity_bit (m_bKeyData s) \<longrightarrow> KEYBOARD_BIT d s = Some (s\<lparr>m_bKeyState := 10\<rparr>)) \<and>
         (d \<noteq> parity_bit (m_bKeyData s) \<longrightarrow>
            (\<exists>s'. KEYBOARD_BIT d s = Some s' \<and> is_set m_fKeyParity (g_bKeyFlags s') \<and>
                  m_bKeyState s' = 11 \<and> same_buffer s s' \<and> (\<forall>ds. edges ds s' = Some s')))"
proof (intro conjI impI)
  assume "d = parity_bit (m_bKeyData s)"
  then show "KEYBOARD_BIT d s = Some (s\<lparr>m_bKeyState := 10\<rparr>)"
    using assms by (simp add: KEYBOARD_BIT_def parity_ok KEYNXT_def KEYRET_def)
next
  assume bad: "d \<noteq> parity_bit (m_bKeyData s)"
  let ?s' = "BADPAR s"
  have "SPARITY d s = ?s'"
    using bad by (auto simp add: SPARITY_def parity_bit_def PSW_P_def)
  then have step: "KEYBOARD_BIT d s = Some ?s'"
    using assms by (simp add: KEYBOARD_BIT_def)
  have err: "m_bKeyState ?s' = 11" by (simp add: BADPAR_def KEYRET_def)
  have "is_set m_fKeyParity (g_bKeyFlags ?s')"
    by (simp add: BADPAR_def KEYRET_def is_set_SETB)
  moreover have "same_buffer s ?s'" by (simp add: BADPAR_def KEYRET_def same_buffer_def)
  moreover have "\<forall>ds. edges ds ?s' = Some ?s'" using err by (simp add: edges_Error)
  ultimately show "\<exists>s'. KEYBOARD_BIT d s = Some s' \<and> is_set m_fKeyParity (g_bKeyFlags s') \<and>
      m_bKeyState s' = 11 \<and> same_buffer s s' \<and> (\<forall>ds. edges ds s' = Some s')"
    using step err by blast
qed

text \<open>After the data bits of 0x1C, three one bits: the parity bit must be 0.\<close>

theorem parity_bit_checked_witness:
  "KEYBOARD_BIT False at_parity = Some (at_parity\<lparr>m_bKeyState := 10\<rparr>) \<and>
   (\<exists>s'. KEYBOARD_BIT True at_parity = Some s' \<and> is_set m_fKeyParity (g_bKeyFlags s') \<and>
         m_bKeyState s' = 11 \<and> same_buffer at_parity s' \<and> (\<forall>ds. edges ds s' = Some s'))"
proof -
  have st: "m_bKeyState at_parity = 9" by (simp add: at_parity_def)
  have p: "parity_bit (m_bKeyData at_parity) = False"
    by code_simp
  show ?thesis
    using parity_bit_checked [OF st, of False] parity_bit_checked [OF st, of True] p by blast
qed

subsection \<open>The timeout\<close>

lemma unat_state_next: "unat (st::byte) \<le> 9 \<Longrightarrow> unat (st + 1) = Suc (unat st)"
  by (simp add: unat_word_ariths)

lemma KEYBOARD_BIT_mid:
  assumes "1 \<le> unat (m_bKeyState s)" "unat (m_bKeyState s) \<le> 9"
  shows "\<exists>s'. KEYBOARD_BIT d s = Some s' \<and> same_buffer s s' \<and> TR0 s' = TR0 s \<and>
           (is_set m_fKeyBusy (g_bKeyFlags s) \<longrightarrow> is_set m_fKeyBusy (g_bKeyFlags s')) \<and>
           (m_bKeyState s' = 11 \<or> unat (m_bKeyState s') = Suc (unat (m_bKeyState s)))"
proof (cases "unat (m_bKeyState s) \<le> 8")
  case True
  then have "KEYBOARD_BIT d s = Some (SDATA d s)"
    using assms by (simp add: KEYBOARD_BIT_def)
  then show ?thesis
    using assms by (simp add: SDATA_def KEYNXT_def KEYRET_def same_buffer_def unat_state_next)
next
  case False
  then have st: "unat (m_bKeyState s) = 9" using assms by simp
  then have "KEYBOARD_BIT d s = Some (SPARITY d s)"
    by (simp add: KEYBOARD_BIT_def)
  then show ?thesis
    using st
    by (simp add: SPARITY_def BADPAR_def KEYNXT_def KEYRET_def same_buffer_def unat_state_next
        is_set_SETB_other)
qed

lemma edges_mid:
  assumes "m_bKeyState s = 11 \<or> (1 \<le> unat (m_bKeyState s) \<and> unat (m_bKeyState s) + length ds \<le> 10)"
  shows "\<exists>s'. edges ds s = Some s' \<and> same_buffer s s' \<and> TR0 s' = TR0 s \<and>
           (is_set m_fKeyBusy (g_bKeyFlags s) \<longrightarrow> is_set m_fKeyBusy (g_bKeyFlags s'))"
  using assms
proof (induction ds arbitrary: s)
  case Nil
  then show ?case by (simp add: same_buffer_refl)
next
  case (Cons d ds)
  show ?case
  proof (cases "m_bKeyState s = 11")
    case True
    then show ?thesis
      using edges_Error [of s "d # ds"] by (simp add: same_buffer_refl del: edges.simps)
  next
    case False
    then have st: "1 \<le> unat (m_bKeyState s)" "unat (m_bKeyState s) \<le> 9"
      using Cons.prems by auto
    obtain s1 where s1: "KEYBOARD_BIT d s = Some s1" "same_buffer s s1" "TR0 s1 = TR0 s"
        "is_set m_fKeyBusy (g_bKeyFlags s) \<longrightarrow> is_set m_fKeyBusy (g_bKeyFlags s1)"
        "m_bKeyState s1 = 11 \<or> unat (m_bKeyState s1) = Suc (unat (m_bKeyState s))"
      using KEYBOARD_BIT_mid [OF st, of d] by blast
    have "m_bKeyState s1 = 11 \<or>
        (1 \<le> unat (m_bKeyState s1) \<and> unat (m_bKeyState s1) + length ds \<le> 10)"
      using s1(5) Cons.prems False by auto
    from Cons.IH [OF this] obtain s' where s': "edges ds s1 = Some s'" "same_buffer s1 s'"
        "TR0 s' = TR0 s1"
        "is_set m_fKeyBusy (g_bKeyFlags s1) \<longrightarrow> is_set m_fKeyBusy (g_bKeyFlags s')"
      by blast
    show ?thesis
      using s1 s' same_buffer_trans [OF s1(2) s'(2)] by simp
  qed
qed

lemma KEYBOARD_TIMEOUT_effect:
  "is_set m_fKeyTimeout (g_bKeyFlags (KEYBOARD_TIMEOUT s))"
  "\<not> is_set m_fKeyBusy (g_bKeyFlags (KEYBOARD_TIMEOUT s))"
  "m_bKeyState (KEYBOARD_TIMEOUT s) = 0"
  "same_buffer s (KEYBOARD_TIMEOUT s)"
proof -
  have "m_fKeyTimeout AND m_fKeyBusy = 0" by (simp add: m_fKeyTimeout_def m_fKeyBusy_def)
  then show "is_set m_fKeyTimeout (g_bKeyFlags (KEYBOARD_TIMEOUT s))"
    by (simp add: KEYBOARD_TIMEOUT_def is_set_CLR_other is_set_SETB)
  have "m_fKeyBusy \<noteq> 0" by (simp add: m_fKeyBusy_def)
  then show "\<not> is_set m_fKeyBusy (g_bKeyFlags (KEYBOARD_TIMEOUT s))"
    by (simp add: KEYBOARD_TIMEOUT_def not_is_set_CLR)
  show "m_bKeyState (KEYBOARD_TIMEOUT s) = 0" by (simp add: KEYBOARD_TIMEOUT_def)
  show "same_buffer s (KEYBOARD_TIMEOUT s)" by (simp add: KEYBOARD_TIMEOUT_def same_buffer_def)
qed

text \<open>
  Claim C4. A start bit is accepted in the idle state and up to nine further
  edges follow, with any data bits, so the frame is not complete. Then every
  edge is accepted, the timer started by the start bit is still running, Busy
  is set, and the buffer and its cursors are untouched. When the timer
  interrupt comes in that state, whichever it is, \<open>KEYBOARD_TIMEOUT\<close> sets the
  timeout bit, clears Busy and puts the receiver in the idle state 0, and
  still nothing has been stored in the buffer. The handler does the same from
  every state whatever. A stop bit that is accepted in state 10 stops the
  timer.
\<close>

theorem KEYBOARD_TIMEOUT_mid_frame:
  assumes "m_bKeyState s = 0" and "length ds \<le> 9"
  shows "(\<exists>s1. edges (False # ds) s = Some s1 \<and> TR0 s1 \<and> is_set m_fKeyBusy (g_bKeyFlags s1) \<and>
            same_buffer s s1 \<and>
            is_set m_fKeyTimeout (g_bKeyFlags (KEYBOARD_TIMEOUT s1)) \<and>
            \<not> is_set m_fKeyBusy (g_bKeyFlags (KEYBOARD_TIMEOUT s1)) \<and>
            m_bKeyState (KEYBOARD_TIMEOUT s1) = 0 \<and>
            same_buffer s (KEYBOARD_TIMEOUT s1)) \<and>
         (\<forall>t. is_set m_fKeyTimeout (g_bKeyFlags (KEYBOARD_TIMEOUT t)) \<and>
              \<not> is_set m_fKeyBusy (g_bKeyFlags (KEYBOARD_TIMEOUT t)) \<and>
              m_bKeyState (KEYBOARD_TIMEOUT t) = 0 \<and>
              same_buffer t (KEYBOARD_TIMEOUT t)) \<and>
         (\<forall>t. m_bKeyState t = 10 \<longrightarrow>
              (\<exists>t'. KEYBOARD_BIT True t = Some t' \<and> \<not> TR0 t' \<and> m_bKeyState t' = 0))"
proof -
  let ?s0 = "START False s"
  have step: "KEYBOARD_BIT False s = Some ?s0" using assms(1) by (simp add: KEYBOARD_BIT_def)
  have s0: "m_bKeyState ?s0 = 1" "TR0 ?s0" "is_set m_fKeyBusy (g_bKeyFlags ?s0)" "same_buffer s ?s0"
    using assms(1) by (simp_all add: START_def KEYNXT_def KEYRET_def is_set_SETB same_buffer_def)
  have "m_bKeyState ?s0 = 11 \<or>
      (1 \<le> unat (m_bKeyState ?s0) \<and> unat (m_bKeyState ?s0) + length ds \<le> 10)"
    using s0(1) assms(2) by simp
  from edges_mid [OF this] obtain s1 where s1: "edges ds ?s0 = Some s1" "same_buffer ?s0 s1"
      "TR0 s1 = TR0 ?s0"
      "is_set m_fKeyBusy (g_bKeyFlags ?s0) \<longrightarrow> is_set m_fKeyBusy (g_bKeyFlags s1)"
    by blast
  have buf: "same_buffer s s1" using s0(4) s1(2) by (rule same_buffer_trans)
  have "same_buffer s (KEYBOARD_TIMEOUT s1)"
    using buf KEYBOARD_TIMEOUT_effect(4) by (rule same_buffer_trans)
  then have mid: "\<exists>s1. edges (False # ds) s = Some s1 \<and> TR0 s1 \<and>
      is_set m_fKeyBusy (g_bKeyFlags s1) \<and> same_buffer s s1 \<and>
      is_set m_fKeyTimeout (g_bKeyFlags (KEYBOARD_TIMEOUT s1)) \<and>
      \<not> is_set m_fKeyBusy (g_bKeyFlags (KEYBOARD_TIMEOUT s1)) \<and>
      m_bKeyState (KEYBOARD_TIMEOUT s1) = 0 \<and> same_buffer s (KEYBOARD_TIMEOUT s1)"
    using step s0 s1 buf KEYBOARD_TIMEOUT_effect(1,2,3) [of s1] by simp
  have stop: "\<exists>t'. KEYBOARD_BIT True t = Some t' \<and> \<not> TR0 t' \<and> m_bKeyState t' = 0"
    if "m_bKeyState t = 10" for t
    using that by (simp add: KEYBOARD_BIT_def STOPB_def KEYRET_def PutKey_stores Let_def)
  show ?thesis using mid stop KEYBOARD_TIMEOUT_effect by blast
qed

text \<open>
  The timer expires after a start bit and three data bits; and the stop bit of
  a frame for 0x1C stops the timer.
\<close>

theorem KEYBOARD_TIMEOUT_mid_frame_witness:
  "(\<exists>s1. edges [False, True, False, True] (InitializeKeyboard power_on) = Some s1 \<and> TR0 s1 \<and>
      is_set m_fKeyBusy (g_bKeyFlags s1) \<and>
      same_buffer (InitializeKeyboard power_on) s1 \<and>
      is_set m_fKeyTimeout (g_bKeyFlags (KEYBOARD_TIMEOUT s1)) \<and>
      \<not> is_set m_fKeyBusy (g_bKeyFlags (KEYBOARD_TIMEOUT s1)) \<and>
      m_bKeyState (KEYBOARD_TIMEOUT s1) = 0 \<and>
      same_buffer (InitializeKeyboard power_on) (KEYBOARD_TIMEOUT s1)) \<and>
   (\<exists>t'. KEYBOARD_BIT True (at_parity\<lparr>m_bKeyState := 10\<rparr>) = Some t' \<and> \<not> TR0 t' \<and>
      m_bKeyState t' = 0)"
proof -
  have idle: "m_bKeyState (InitializeKeyboard power_on) = 0" by (simp add: InitializeKeyboard_def)
  have short: "length [True, False, True] \<le> 9" by simp
  have stop: "m_bKeyState (at_parity\<lparr>m_bKeyState := 10\<rparr>) = 10" by simp
  show ?thesis using KEYBOARD_TIMEOUT_mid_frame [OF idle short] stop by blast
qed

subsection \<open>Recovery in WaitKey\<close>

lemma GetKey_flags: "g_bKeyFlags (snd (GetKey s)) = g_bKeyFlags s"
  by (simp add: GetKey_def Let_def)

lemma KEYBOARD_BIT_keeps_errors:
  assumes "KEYBOARD_BIT d s = Some s'"
  shows "keeps_errors s s'"
proof -
  have "g_bKeyFlags s' = g_bKeyFlags s \<or> g_bKeyFlags s' = SETB m_fKeyBusy (g_bKeyFlags s) \<or>
      g_bKeyFlags s' = SETB m_fKeyFraming (g_bKeyFlags s) \<or>
      g_bKeyFlags s' = SETB m_fKeyParity (g_bKeyFlags s) \<or>
      g_bKeyFlags s' = CLR m_fKeyBusy (g_bKeyFlags s) \<or>
      g_bKeyFlags s' = SETB m_fKeyFraming (CLR m_fKeyBusy (g_bKeyFlags s))"
    using assms
    by (auto simp add: KEYBOARD_BIT_def START_def SDATA_def SPARITY_def STOPB_def FRAERR_def
        BADPAR_def KEYNXT_def KEYRET_def PutKey_stores Let_def split: if_splits)
  then show ?thesis
    using errors_not_busy
    by (auto simp add: keeps_errors_bits disjoint_bits SETB_def CLR_def bit_and_iff bit_or_iff
      bit_not_iff dest: bit_byte)
qed

lemma KEYBOARD_TIMEOUT_keeps_errors: "keeps_errors s (KEYBOARD_TIMEOUT s)"
  using errors_not_busy
  by (auto simp add: KEYBOARD_TIMEOUT_def keeps_errors_bits disjoint_bits SETB_def CLR_def
      bit_and_iff bit_or_iff bit_not_iff dest: bit_byte)

text \<open>
  Claim C8. \<open>GetKey\<close> returns -1 and one of the four error bits (mask 0xF0) is
  set. Then the pass of \<open>WaitKey\<close> returns no key and ends in the state
  \<open>InitializeKeyboard\<close> leaves: both cursors 0, the receiver idle, the whole
  flags byte 0; the loop goes on polling from that state. No other path clears
  an error bit: an edge interrupt and the timeout interrupt keep every error
  bit that is set, \<open>GetKey\<close> does not change the flags, and a pass of \<open>WaitKey\<close>
  that got a key or saw no error bit leaves the flags as they are.
\<close>

theorem WaitKey_reinitializes:
  assumes "fst (GetKey s) = 0xFFFF" and "g_bKeyFlags s AND KEYBOARD_ERROR_BITS \<noteq> 0"
  shows "fst (WaitKey_pass s) = None \<and>
         snd (WaitKey_pass s) = InitializeKeyboard (snd (GetKey s)) \<and>
         m_bKeyGet (snd (WaitKey_pass s)) = 0 \<and> m_bKeyPut (snd (WaitKey_pass s)) = 0 \<and>
         m_bKeyState (snd (WaitKey_pass s)) = 0 \<and> g_bKeyFlags (snd (WaitKey_pass s)) = 0 \<and>
         WaitKey (q # sched) s =
           (case service q (snd (WaitKey_pass s)) of None \<Rightarrow> None | Some s' \<Rightarrow> WaitKey sched s') \<and>
         (\<forall>d t t'. KEYBOARD_BIT d t = Some t' \<longrightarrow> keeps_errors t t') \<and>
         (\<forall>t. keeps_errors t (KEYBOARD_TIMEOUT t)) \<and>
         (\<forall>t. g_bKeyFlags (snd (GetKey t)) = g_bKeyFlags t) \<and>
         (\<forall>t. fst (GetKey t) \<noteq> 0xFFFF \<or> g_bKeyFlags t AND KEYBOARD_ERROR_BITS = 0 \<longrightarrow>
              g_bKeyFlags (snd (WaitKey_pass t)) = g_bKeyFlags t)"
proof -
  obtain k s1 where g: "GetKey s = (k, s1)" by (cases "GetKey s")
  have "k = 0xFFFF" "g_bKeyFlags s1 = g_bKeyFlags s"
    using assms(1) GetKey_flags [of s] by (simp_all add: g)
  then have pass: "WaitKey_pass s = (None, InitializeKeyboard (snd (GetKey s)))"
    using assms(2) by (simp add: WaitKey_pass_def g)
  have other: "g_bKeyFlags (snd (WaitKey_pass t)) = g_bKeyFlags t"
    if "fst (GetKey t) \<noteq> 0xFFFF \<or> g_bKeyFlags t AND KEYBOARD_ERROR_BITS = 0" for t
    using that GetKey_flags [of t] by (cases "GetKey t") (auto simp add: WaitKey_pass_def)
  show ?thesis
    using other KEYBOARD_BIT_keeps_errors KEYBOARD_TIMEOUT_keeps_errors
    by (simp add: pass GetKey_flags InitializeKeyboard_def)
qed

text \<open>
  The timer has expired on an empty buffer: the next pass initializes again.
  A start bit taken in that state keeps the timeout bit, and a pass with no
  error bit set leaves the flags alone.
\<close>

theorem WaitKey_reinitializes_witness:
  "fst (WaitKey_pass (KEYBOARD_TIMEOUT (InitializeKeyboard power_on))) = None \<and>
   m_bKeyGet (snd (WaitKey_pass (KEYBOARD_TIMEOUT (InitializeKeyboard power_on)))) = 0 \<and>
   m_bKeyPut (snd (WaitKey_pass (KEYBOARD_TIMEOUT (InitializeKeyboard power_on)))) = 0 \<and>
   m_bKeyState (snd (WaitKey_pass (KEYBOARD_TIMEOUT (InitializeKeyboard power_on)))) = 0 \<and>
   g_bKeyFlags (snd (WaitKey_pass (KEYBOARD_TIMEOUT (InitializeKeyboard power_on)))) = 0 \<and>
   keeps_errors (KEYBOARD_TIMEOUT (InitializeKeyboard power_on))
     (START False (KEYBOARD_TIMEOUT (InitializeKeyboard power_on))) \<and>
   g_bKeyFlags (snd (WaitKey_pass (InitializeKeyboard power_on))) =
     g_bKeyFlags (InitializeKeyboard power_on)"
proof -
  let ?s = "KEYBOARD_TIMEOUT (InitializeKeyboard power_on)"
  have empty: "fst (GetKey ?s) = 0xFFFF"
    by (simp add: GetKey_def KEYBOARD_TIMEOUT_def InitializeKeyboard_def)
  have "g_bKeyFlags ?s = 0x80"
    by (simp add: KEYBOARD_TIMEOUT_def InitializeKeyboard_def SETB_def CLR_def
        m_fKeyTimeout_def m_fKeyBusy_def)
  then have err: "g_bKeyFlags ?s AND KEYBOARD_ERROR_BITS \<noteq> 0"
    by (simp add: KEYBOARD_ERROR_BITS_def)
  have edge: "KEYBOARD_BIT False ?s = Some (START False ?s)"
    by (simp add: KEYBOARD_BIT_def KEYBOARD_TIMEOUT_def)
  have clean: "g_bKeyFlags (InitializeKeyboard power_on) AND KEYBOARD_ERROR_BITS = 0"
    by (simp add: InitializeKeyboard_def)
  show ?thesis using WaitKey_reinitializes [OF empty err] edge clean by blast
qed

section \<open>Properties of the decoder\<close>

subsection \<open>The keys it reads\<close>

text \<open>
  With an unread byte in the buffer \<open>WaitKey\<close> returns at its first pass, with
  the oldest unread byte, whatever interrupts are still to come: the decoder
  reads the bytes in the order in which the receiver stored them.
\<close>

lemma LOBYTE_ucast: "LOBYTE (ucast (b::byte)) = b"
proof -
  have m: "(0xFF :: 16 word) = mask 8" by (simp add: mask_eq_exp_minus_1)
  show ?thesis
    unfolding LOBYTE_def m
    by (rule bit_word_eqI) (auto simp add: bit_simps)
qed

lemma WaitKey_pending:
  assumes "kbd_ok s" "pending s = b # bs"
  shows "\<exists>s'. WaitKey sched s = Some (b, s', sched) \<and> kbd_ok s' \<and> pending s' = bs"
proof -
  obtain k s1 where g: "GetKey s = (k, s1)" by (cases "GetKey s")
  have k: "k = ucast b" and s1: "pending s1 = bs" "kbd_ok s1"
    using GetKey_pending [OF assms] by (simp_all add: g)
  have "WaitKey_pass s = (Some b, s1)"
    using ucast_not_sentinel [of b] by (simp add: WaitKey_pass_def g k LOBYTE_ucast)
  then show ?thesis using s1 by simp
qed

subsection \<open>Pause/Break\<close>

lemma DoPause_match: "DoPause es (es @ ks) h = Inr (ks, SendHost KEY_BREAK h)"
  by (induction es) (simp_all add: WaitKey_from_def)

lemma DoPause_mismatch:
  "k < length es \<Longrightarrow> b \<noteq> es ! k \<Longrightarrow> DoPause es (take k es @ b # ks) h = Inr (ks, h)"
proof (induction es arbitrary: k)
  case Nil
  then show ?case by simp
next
  case (Cons e es)
  then show ?case by (cases k) (simp_all add: WaitKey_from_def)
qed

lemma ConvertKeys_body_E1:
  "ConvertKeys_body swap tab (0xE1 # ks) h = DoPause pause_tail ks h"
  by (simp add: ConvertKeys_body_def WaitKey_from_def DoSpecial_def)

lemma ConvertKeys_loop_next:
  "ConvertKeys_body swap tab keys h = Inr (ks, h') \<Longrightarrow>
     ConvertKeys_loop swap tab keys h = ConvertKeys_loop swap tab ks h'"
  by (subst ConvertKeys_loop.simps) simp

text \<open>
  Claim C5. An iteration of the decoder that reads 0xE1 compares the keys that
  follow with 0x14, 0x77, 0xE1, 0xF0, 0x14, 0xF0, 0x77 in this order. When all
  seven match, the iteration takes the eight bytes and sends one byte, 0x80
  (\<open>KEY_BREAK\<close>), and the loop goes on with the key after them. When the key at
  some position \<open>k\<close> differs, the iteration takes the keys up to and including
  that one, sends nothing and changes nothing, and the loop goes on with the
  key after it. The decoder touches the error flags of the receiver only
  inside \<open>WaitKey\<close>, which may clear them and never sets one.
\<close>

theorem Pause_Break_decoded:
  "ConvertKeys_body swap tab (0xE1 # [0x14, 0x77, 0xE1, 0xF0, 0x14, 0xF0, 0x77] @ ks) h =
     Inr (ks, h\<lparr>sent := sent h @ [0x80]\<rparr>) \<and>
   ConvertKeys_loop swap tab (0xE1 # [0x14, 0x77, 0xE1, 0xF0, 0x14, 0xF0, 0x77] @ ks) h =
     ConvertKeys_loop swap tab ks (h\<lparr>sent := sent h @ [0x80]\<rparr>) \<and>
   (k < 7 \<and> b \<noteq> [0x14, 0x77, 0xE1, 0xF0, 0x14, 0xF0, 0x77] ! k \<longrightarrow>
      ConvertKeys_body swap tab (0xE1 # take k [0x14, 0x77, 0xE1, 0xF0, 0x14, 0xF0, 0x77] @ b # ks) h =
        Inr (ks, h) \<and>
      ConvertKeys_loop swap tab (0xE1 # take k [0x14, 0x77, 0xE1, 0xF0, 0x14, 0xF0, 0x77] @ b # ks) h =
        ConvertKeys_loop swap tab ks h)"
proof -
  have tail: "[0x14, 0x77, 0xE1, 0xF0, 0x14, 0xF0, 0x77] = pause_tail" by (simp add: pause_tail_def)
  have len: "length pause_tail = 7" by (simp add: pause_tail_def)
  have full: "ConvertKeys_body swap tab (0xE1 # pause_tail @ ks) h =
      Inr (ks, h\<lparr>sent := sent h @ [0x80]\<rparr>)"
    by (simp only: ConvertKeys_body_E1 DoPause_match) (simp add: SendHost_def KEY_BREAK_def)
  have part: "ConvertKeys_body swap tab (0xE1 # take k pause_tail @ b # ks) h = Inr (ks, h)"
    if "k < 7" "b \<noteq> pause_tail ! k"
    using that DoPause_mismatch [of k pause_tail b ks h]
    by (simp only: ConvertKeys_body_E1) (simp add: len)
  show ?thesis
    unfolding tail
    using full part ConvertKeys_loop_next [OF full]
    by (auto dest!: ConvertKeys_loop_next)
qed

text \<open>The fifth byte of the tail is 0x15 instead of 0x14; the key A follows.\<close>

theorem Pause_Break_decoded_witness:
  "ConvertKeys_body False (\<lambda>r c. 0) [0xE1, 0x14, 0x77, 0xE1, 0xF0, 0x15, 0x1C] host0 =
     Inr ([0x1C], host0)"
  using Pause_Break_decoded [of False "\<lambda>r c. 0" "[0x1C]" host0 4 "0x15"]
  by simp

subsection \<open>ASCII keys\<close>

lemma bShift_of_bits:
  "bit (bShift_of h) 0 = (m_fLeftShiftDown h \<or> m_fRightShiftDown h)"
  "bit (bShift_of h) (Suc 0) = m_fControlDown h"
  "unat (bShift_of h) < 4"
  by (simp_all add: bShift_of_def bit_simps)

lemma toupper_lower:
  assumes "islower c"
  shows "toupper c = c - 0x20"
proof -
  have r: "96 \<le> unat c" "unat c < 128"
    using assms by (simp_all add: islower_def word_le_nat_alt)
  have "unat c div 32 = 3" using r by arith
  then have "unat (drop_bit 5 c) = unat (3::byte)"
    by (simp add: unat_drop_bit_eq drop_bit_eq_div unat_div)
  then have "drop_bit 5 c = 3" by (simp only: word_unat_eq_iff)
  then have b5: "bit c 5" by (simp add: bit_iff_odd_drop_bit)
  have twenty: "(0x20::byte) = 2 ^ 5" "(0xDF::byte) = NOT (2 ^ 5)" by simp_all
  have "(c AND 0xDF) + 0x20 = (c AND 0xDF) OR 0x20"
    by (rule disjunctive_add) (simp only: twenty bit_and_iff bit_not_iff bit_exp_iff, auto)
  also have "\<dots> = c"
    using b5
    by (intro bit_word_eqI) (simp only: twenty bit_or_iff bit_and_iff bit_not_iff bit_exp_iff, auto)
  finally have "c AND 0xDF = c - 0x20" by (simp add: algebra_simps)
  then show ?thesis by (simp add: toupper_def)
qed

text \<open>
  Claim C6, as amended. For a key code below 128, \<open>DoASCII\<close> looks up the row of
  the key code and the column given by the shift index, whose bit 0 is set
  exactly when a shift key is down and whose bit 1 is set exactly when control
  is down. A zero entry sends nothing and is reported as not handled. A
  nonzero entry on a release sends nothing and is reported as handled. A
  nonzero entry on a press sends the entry with its top bit cleared (the entry
  AND 0x7F); when CapsLock is on and that character is a lowercase letter, the
  uppercase letter (32 less) is sent instead.
\<close>

theorem DoASCII_resolves:
  assumes "unat bKey < 128"
  shows "bit (bShift_of h) 0 = (m_fLeftShiftDown h \<or> m_fRightShiftDown h) \<and>
         bit (bShift_of h) 1 = m_fControlDown h \<and>
         unat (bShift_of h) < 4 \<and>
         (let e = tab (unat bKey) (unat (bShift_of h)); c = e AND 0x7F
          in (e = 0 \<longrightarrow> DoASCII tab bKey fRelease h = Inr (False, h)) \<and>
             (e \<noteq> 0 \<and> fRelease \<longrightarrow> DoASCII tab bKey fRelease h = Inr (True, h)) \<and>
             (e \<noteq> 0 \<and> \<not> fRelease \<longrightarrow>
                DoASCII tab bKey fRelease h =
                  Inr (True, h\<lparr>sent := sent h @
                    [if m_fCapsLockOn h \<and> 0x61 \<le> c \<and> c \<le> 0x7A then c - 0x20 else c]\<rparr>)))"
  using assms bShift_of_bits [of h]
  by (auto simp add: DoASCII_def Let_def SendHost_def toupper_lower islower_def)

text \<open>
  The key A with CapsLock on sends \<open>A\<close>; its release sends nothing; with shift
  and control down the table has no entry and nothing is sent.
\<close>

theorem DoASCII_resolves_witness:
  "DoASCII tab_a 0x1C False (host0\<lparr>m_fCapsLockOn := True\<rparr>) =
     Inr (True, host0\<lparr>m_fCapsLockOn := True, sent := [0x41]\<rparr>) \<and>
   DoASCII tab_a 0x1C True host0 = Inr (True, host0) \<and>
   DoASCII tab_a 0x1C False (host0\<lparr>m_fLeftShiftDown := True, m_fControlDown := True\<rparr>) =
     Inr (False, host0\<lparr>m_fLeftShiftDown := True, m_fControlDown := True\<rparr>)"
proof -
  have k: "unat (0x1C::byte) < 128" by simp
  have none: "sent host0 = []" "\<not> m_fCapsLockOn host0" by (simp_all add: host0_def)
  have i0: "unat (bShift_of host0) = 0" "unat (bShift_of (host0\<lparr>m_fCapsLockOn := True\<rparr>)) = 0"
    "unat (bShift_of (host0\<lparr>m_fLeftShiftDown := True, m_fControlDown := True\<rparr>)) = 3"
    by (simp_all add: bShift_of_def host0_def)
  have caps: "DoASCII tab_a 0x1C False (host0\<lparr>m_fCapsLockOn := True\<rparr>) =
      Inr (True, host0\<lparr>m_fCapsLockOn := True, sent := [0x41]\<rparr>)"
    using DoASCII_resolves [OF k, of "host0\<lparr>m_fCapsLockOn := True\<rparr>" tab_a False]
    by (simp add: i0 tab_a_def Let_def none)
  have up: "DoASCII tab_a 0x1C True host0 = Inr (True, host0)"
    using DoASCII_resolves [OF k, of host0 tab_a True]
    by (simp add: i0 tab_a_def Let_def none)
  have unmapped:
    "DoASCII tab_a 0x1C False (host0\<lparr>m_fLeftShiftDown := True, m_fControlDown := True\<rparr>) =
      Inr (False, host0\<lparr>m_fLeftShiftDown := True, m_fControlDown := True\<rparr>)"
    using DoASCII_resolves [OF k,
        of "host0\<lparr>m_fLeftShiftDown := True, m_fControlDown := True\<rparr>" tab_a False]
    by (simp add: i0 tab_a_def Let_def none)
  show ?thesis using caps up unmapped by simp
qed

text \<open>
  The claim as stated, that the entry itself is sent, fails for an entry with
  the top bit set: for the entry 0x80 the byte sent is 0x00.
\<close>

theorem DoASCII_high_bit_counterexample:
  "DoASCII (\<lambda>r c. 0x80) 0x1C False host0 = Inr (True, host0\<lparr>sent := [0x00]\<rparr>)"
  by (simp add: DoASCII_def host0_def bShift_of_def SendHost_def islower_def)

subsection \<open>Modifier keys\<close>

lemma body_plain:
  "\<not> DoSpecial k \<Longrightarrow> k \<noteq> 0xE0 \<Longrightarrow> k \<noteq> 0xE1 \<Longrightarrow> k \<noteq> 0xF0 \<Longrightarrow> k \<noteq> 0x77 \<Longrightarrow> k \<noteq> 0x7E \<Longrightarrow>
   ConvertKeys_body swap tab (k # ks) h =
     (case DoShift swap k False False h of
        (True, h1) \<Rightarrow> Inr (ks, h1)
      | (False, h1) \<Rightarrow>
          (case DoFunction k False h1 of
             (True, h2) \<Rightarrow> Inr (ks, h2)
           | (False, h2) \<Rightarrow>
               (case DoKeypad k False h2 of
                  (True, h3) \<Rightarrow> Inr (ks, h3)
                | (False, h3) \<Rightarrow>
                    (case DoASCII tab k False h3 of
                       Inl e \<Rightarrow> Inl e
                     | Inr (handled, h4) \<Rightarrow> Inr (ks, h4)))))"
  by (simp add: ConvertKeys_body_def WaitKey_from_def after_release_def)

lemma body_release:
  "k \<noteq> 0x77 \<Longrightarrow> k \<noteq> 0x7E \<Longrightarrow>
   ConvertKeys_body swap tab (0xF0 # k # ks) h =
     (case DoShift swap k True False h of
        (True, h1) \<Rightarrow> Inr (ks, h1)
      | (False, h1) \<Rightarrow>
          (case DoFunction k True h1 of
             (True, h2) \<Rightarrow> Inr (ks, h2)
           | (False, h2) \<Rightarrow>
               (case DoKeypad k True h2 of
                  (True, h3) \<Rightarrow> Inr (ks, h3)
                | (False, h3) \<Rightarrow>
                    (case DoASCII tab k True h3 of
                       Inl e \<Rightarrow> Inl e
                     | Inr (handled, h4) \<Rightarrow> Inr (ks, h4)))))"
  by (simp add: ConvertKeys_body_def WaitKey_from_def after_release_def DoSpecial_def)

lemma DoASCII_release: "unat k < 128 \<Longrightarrow> \<exists>handled. DoASCII tab k True h = Inr (handled, h)"
  by (auto simp add: DoASCII_def Let_def)

text \<open>
  Claim C7, as amended. The CapsLock scan code is 0x58, or 0x14 when CapsLock
  and Control are swapped. A press of it is handled by \<open>DoShift\<close> and toggles
  the CapsLock flag, nothing else; two presses in a row leave the decoder where
  it was. A release of it is not handled by \<open>DoShift\<close>, changes no flag and
  sends nothing, whatever the table holds for it.
\<close>

theorem CapsLock_toggles:
  assumes "k = (if swap then 0x14 else 0x58)"
  shows "DoShift swap k False False h = (True, h\<lparr>m_fCapsLockOn := \<not> m_fCapsLockOn h\<rparr>) \<and>
         DoShift swap k True False h = (False, h) \<and>
         ConvertKeys_body swap tab (k # ks) h = Inr (ks, h\<lparr>m_fCapsLockOn := \<not> m_fCapsLockOn h\<rparr>) \<and>
         ConvertKeys_loop swap tab (k # k # ks) h = ConvertKeys_loop swap tab ks h \<and>
         ConvertKeys_body swap tab (0xF0 # k # ks) h = Inr (ks, h)"
proof -
  have k: "k = 0x14 \<or> k = 0x58" "unat k < 128" using assms by (auto split: if_splits)
  have press: "DoShift swap k False False h = (True, h\<lparr>m_fCapsLockOn := \<not> m_fCapsLockOn h\<rparr>)" for h
    using assms by (simp add: DoShift_def)
  have release: "DoShift swap k True False h = (False, h)"
    using assms by (simp add: DoShift_def)
  have cond: "\<not> DoSpecial k" "k \<noteq> 0xE0" "k \<noteq> 0xE1" "k \<noteq> 0xF0" "k \<noteq> 0x77" "k \<noteq> 0x7E"
    using k(1) by (auto simp add: DoSpecial_def)
  have other: "DoFunction k r h = (False, h)" "DoKeypad k r h = (False, h)" for r h
    using k(1) by (auto simp add: DoFunction_def DoKeypad_def)
  have one: "ConvertKeys_body swap tab (k # ks) h = Inr (ks, h\<lparr>m_fCapsLockOn := \<not> m_fCapsLockOn h\<rparr>)"
    for ks h
    by (simp add: body_plain [OF cond] press)
  have two: "ConvertKeys_loop swap tab (k # k # ks) h = ConvertKeys_loop swap tab ks h"
    using ConvertKeys_loop_next [OF one [of "k # ks" h]]
      ConvertKeys_loop_next [OF one [of ks "h\<lparr>m_fCapsLockOn := \<not> m_fCapsLockOn h\<rparr>"]]
    by simp
  obtain handled where "DoASCII tab k True h = Inr (handled, h)"
    using DoASCII_release [OF k(2), of tab h] by auto
  then have up: "ConvertKeys_body swap tab (0xF0 # k # ks) h = Inr (ks, h)"
    by (simp add: body_release [OF cond(5,6)] release other)
  show ?thesis using press release one two up by simp
qed

text \<open>
  Without the swap: CapsLock pressed once, pressed twice, and released. With
  the swap: the key that sends 0x14 pressed once.
\<close>

theorem CapsLock_toggles_witness:
  "ConvertKeys_body False tab_a [0x58, 0x1C] host0 = Inr ([0x1C], host0\<lparr>m_fCapsLockOn := True\<rparr>) \<and>
   ConvertKeys_loop False tab_a [0x58, 0x58, 0x1C] host0 = ConvertKeys_loop False tab_a [0x1C] host0 \<and>
   ConvertKeys_body False tab_a [0xF0, 0x58, 0x1C] host0 = Inr ([0x1C], host0) \<and>
   ConvertKeys_body True tab_a [0x14, 0x1C] host0 = Inr ([0x1C], host0\<lparr>m_fCapsLockOn := True\<rparr>)"
proof -
  have code: "(0x58::byte) = (if False then 0x14 else 0x58)" by simp
  have code': "(0x14::byte) = (if True then 0x14 else 0x58)" by simp
  have off: "\<not> m_fCapsLockOn host0" by (simp add: host0_def)
  show ?thesis
    using CapsLock_toggles [OF code, of host0 tab_a "[0x1C]"]
      CapsLock_toggles [OF code', of host0 tab_a "[0x1C]"] off by simp
qed

text \<open>
  The claim as stated, for 0x58 whatever the configuration, fails when the
  swap is active: a press of 0x58 sets Control and leaves CapsLock off, and
  its release changes the modifier state back.
\<close>

theorem CapsLock_swapped_counterexample:
  "ConvertKeys_body True (\<lambda>r c. 0) [0x58] host0 = Inr ([], host0\<lparr>m_fControlDown := True\<rparr>) \<and>
   ConvertKeys_body True (\<lambda>r c. 0) [0xF0, 0x58] (host0\<lparr>m_fControlDown := True\<rparr>) = Inr ([], host0)"
  by (simp add: body_plain body_release DoSpecial_def DoShift_def host0_def)

lemma body_extended: "ConvertKeys_body swap tab (0xE0 # ks) h = DoExtended swap ks h"
  by (simp add: ConvertKeys_body_def WaitKey_from_def DoSpecial_def)

lemma DoExtended_0x14:
  "DoExtended swap (0x14 # ks) h = Inr (ks, snd (DoShift swap 0x14 False True h))"
  "DoExtended swap (0xF0 # 0x14 # ks) h = Inr (ks, snd (DoShift swap 0x14 True True h))"
  by (simp_all add: DoExtended_def WaitKey_from_def after_release_def)

text \<open>
  The Control code is 0x14, or 0x58 when CapsLock and Control are swapped. In
  its plain form \<open>DoShift\<close> handles it under either configuration: a press
  sets the Control flag and a release clears it, and nothing is sent.
\<close>

lemma Control_code_handled:
  assumes "k = (if swap then 0x58 else 0x14)"
  shows "DoShift swap k fRelease False h = (True, h\<lparr>m_fControlDown := \<not> fRelease\<rparr>) \<and>
         ConvertKeys_body swap tab (k # ks) h = Inr (ks, h\<lparr>m_fControlDown := True\<rparr>) \<and>
         ConvertKeys_body swap tab (0xF0 # k # ks) h = Inr (ks, h\<lparr>m_fControlDown := False\<rparr>)"
proof -
  have k: "k = 0x14 \<or> k = 0x58" using assms by (auto split: if_splits)
  have cond: "\<not> DoSpecial k" "k \<noteq> 0xE0" "k \<noteq> 0xE1" "k \<noteq> 0xF0" "k \<noteq> 0x77" "k \<noteq> 0x7E"
    using k by (auto simp add: DoSpecial_def)
  have left: "DoShift swap k r False h = (True, h\<lparr>m_fControlDown := \<not> r\<rparr>)" for r
    using assms by (simp add: DoShift_def)
  have "ConvertKeys_body swap tab (k # ks) h = Inr (ks, h\<lparr>m_fControlDown := True\<rparr>)"
    by (simp add: body_plain [OF cond] left)
  moreover have "ConvertKeys_body swap tab (0xF0 # k # ks) h = Inr (ks, h\<lparr>m_fControlDown := False\<rparr>)"
    by (simp add: body_release [OF cond(5,6)] left)
  ultimately show ?thesis using left by simp
qed

text \<open>
  Claim C9. The file header of host.c says that the right CTRL key does
  nothing, and \<open>DoShift\<close> returns false for the key code 0x14 when it is
  extended. Without the swap that is what happens: the right Control key
  (0xE0 0x14, released 0xE0 0xF0 0x14) is not handled, changes no flag and
  sends nothing. With the swap active the code 0x14 is exchanged for 0x58
  before the switch, and the case of 0x58 does not test \<open>fExtended\<close>: a press
  of the right Control key is then handled and toggles CapsLock, for every
  table, every state of the decoder and whatever keys follow.
\<close>

theorem right_Control_swapped_toggles_CapsLock:
  "DoShift True 0x14 False True h = (True, h\<lparr>m_fCapsLockOn := \<not> m_fCapsLockOn h\<rparr>) \<and>
   ConvertKeys_body True tab (0xE0 # 0x14 # ks) h =
     Inr (ks, h\<lparr>m_fCapsLockOn := \<not> m_fCapsLockOn h\<rparr>) \<and>
   ConvertKeys_body True tab [0xE0, 0x14] host0 = Inr ([], host0\<lparr>m_fCapsLockOn := True\<rparr>) \<and>
   DoShift False 0x14 fRelease True h = (False, h) \<and>
   ConvertKeys_body False tab (0xE0 # 0x14 # ks) h = Inr (ks, h) \<and>
   ConvertKeys_body False tab (0xE0 # 0xF0 # 0x14 # ks) h = Inr (ks, h)"
proof -
  have on: "DoShift True 0x14 False True h = (True, h\<lparr>m_fCapsLockOn := \<not> m_fCapsLockOn h\<rparr>)"
    for h
    by (simp add: DoShift_def)
  have off: "DoShift False 0x14 r True h = (False, h)" for r
    by (simp add: DoShift_def)
  have "ConvertKeys_body True tab (0xE0 # 0x14 # ks) h =
      Inr (ks, h\<lparr>m_fCapsLockOn := \<not> m_fCapsLockOn h\<rparr>)" for ks h
    by (simp add: body_extended DoExtended_0x14 on)
  moreover have "\<not> m_fCapsLockOn host0" by (simp add: host0_def)
  moreover have "ConvertKeys_body False tab (0xE0 # 0x14 # ks) h = Inr (ks, h)"
    by (simp add: body_extended DoExtended_0x14 off)
  moreover have "ConvertKeys_body False tab (0xE0 # 0xF0 # 0x14 # ks) h = Inr (ks, h)"
    by (simp add: body_extended DoExtended_0x14 off)
  ultimately show ?thesis using on off by simp
qed

subsection \<open>The table bound\<close>

text \<open>
  Claim C10. The claim is that no key code of 0x80 and above reaches the
  lookup in \<open>DoASCII\<close>, whose table has 128 rows. The code has no such guard:
  the key code 0x84 (132) is not a status byte or a prefix, and is not known to
  \<open>DoShift\<close>, \<open>DoFunction\<close> or \<open>DoKeypad\<close>, so it arrives at \<open>DoASCII\<close> and indexes
  row 132. The same happens to 0xE0 after a release prefix.
\<close>

theorem DoASCII_overrun:
  "unat (0x84::byte) = 132 \<and>
   ConvertKeys_body swap tab (0x84 # ks) h = Inl TableOverrun \<and>
   ConvertKeys_loop swap tab (0x84 # ks) h = (TableOverrun, h) \<and>
   ConvertKeys_body swap tab (0xF0 # 0xE0 # ks) h = Inl TableOverrun"
  by (cases swap; simp add: ConvertKeys_body_def WaitKey_from_def DoSpecial_def after_release_def
        DoShift_def DoFunction_def DoKeypad_def DoASCII_def)

end
